theory Spec2Isabelle
  imports Main "HOL-Library.Sublist"
begin

section \<open>File names\<close>

text \<open>
  A path is the list of its components below the root of the scan. Names are strings of
  8-bit characters read as code points; on these the only decimal digits are \<open>0\<close> to \<open>9\<close>,
  and the only characters that \<open>str.lower\<close> maps to an ASCII letter are \<open>A\<close> to \<open>Z\<close>.
\<close>

type_synonym path = "string list"

definition startswith_dot :: "string \<Rightarrow> bool" where
  \<comment> \<open>\<open>item.name.startswith('.')\<close>\<close>
  "startswith_dot s = (case s of [] \<Rightarrow> False | c # _ \<Rightarrow> c = CHR ''.'')"

primrec rfind_from :: "char \<Rightarrow> string \<Rightarrow> int \<Rightarrow> int \<Rightarrow> int" where
  "rfind_from c [] i found = found"
| "rfind_from c (x # xs) i found = rfind_from c xs (i + 1) (if x = c then i else found)"

definition rfind :: "string \<Rightarrow> char \<Rightarrow> int" where
  \<comment> \<open>\<open>str.rfind\<close>: the highest index of the character, or \<open>-1\<close>\<close>
  "rfind s c = rfind_from c s 0 (- 1)"

definition path_suffix :: "string \<Rightarrow> string" where
  \<comment> \<open>\<open>PurePath.suffix\<close>: \<open>i = name.rfind('.')\<close>, then \<open>name[i:]\<close> if \<open>0 < i < len(name) - 1\<close>, else \<open>''\<close>\<close>
  "path_suffix nm = (let i = rfind nm CHR ''.''
                in if 0 < i \<and> i < int (length nm) - 1 then drop (nat i) nm else [])"

definition lower_char :: "char \<Rightarrow> char" where
  "lower_char c =
     (case map_of (zip ''ABCDEFGHIJKLMNOPQRSTUVWXYZ'' ''abcdefghijklmnopqrstuvwxyz'') c of
        Some l \<Rightarrow> l
      | None \<Rightarrow> c)"

definition lower :: "string \<Rightarrow> string" where
  "lower s = map lower_char s"

definition FILE_EXTENSIONS :: "string list" where
  "FILE_EXTENSIONS =
     [''.pdf'', ''.txt'', ''.doc'', ''.docx'', ''.xls'', ''.xlsx'', ''.ppt'', ''.pptx'']"

definition is_digit :: "char \<Rightarrow> bool" where
  \<comment> \<open>the regular expression class \<open>\d\<close>\<close>
  "is_digit c = (c \<in> set ''0123456789'')"

fun digits :: "nat \<Rightarrow> string \<Rightarrow> string option" where
  \<comment> \<open>\<open>\d{n}\<close>: consume exactly \<open>n\<close> digits, returning the rest of the input\<close>
  "digits 0 s = Some s"
| "digits (Suc n) [] = None"
| "digits (Suc n) (c # s) = (if is_digit c then digits n s else None)"

fun literal :: "char \<Rightarrow> string \<Rightarrow> string option" where
  "literal c [] = None"
| "literal c (x # s) = (if x = c then Some s else None)"

definition FORMATTED_PATTERN_match :: "string \<Rightarrow> bool" where
  \<comment> \<open>\<open>re.compile(r'^\d{4}-\d{2}-\d{2}_').match(name)\<close> is not \<open>None\<close>\<close>
  "FORMATTED_PATTERN_match nm =
     (Option.bind (Option.bind (Option.bind (Option.bind (Option.bind
        (digits 4 nm) (literal CHR ''-'')) (digits 2)) (literal CHR ''-'')) (digits 2))
        (literal CHR ''_'') \<noteq> None)"


section \<open>The directory tree\<close>

text \<open>
  What the scan can observe of the file system. An entry is a regular file
  (\<open>is_file()\<close> holds), a directory (\<open>is_dir()\<close> holds) or something else (a socket, a
  dangling link). A directory carries its contents in listing order and, optionally, the
  point at which examining it raises: \<open>Some (k, e)\<close> means that exception \<open>e\<close> is raised
  once \<open>k\<close> entries have been delivered, or at the end of a shorter listing (\<open>k = 0\<close>
  for a directory that cannot be listed at all), whether by \<open>iterdir()\<close> itself or by
  the status call on the next entry.
\<close>

datatype exn = PermissionError | NotADirectoryError | OtherException | KeyboardInterrupt

fun is_Exception :: "exn \<Rightarrow> bool" where
  \<comment> \<open>the exception is an instance of class \<open>Exception\<close>; \<open>KeyboardInterrupt\<close> derives from
      \<open>BaseException\<close> only\<close>
  "is_Exception KeyboardInterrupt = False"
| "is_Exception _ = True"

datatype node =
    File string
  | Other string
  | Dir string "node list" "(nat \<times> exn) option"

fun node_name :: "node \<Rightarrow> string" where
  "node_name (File n) = n"
| "node_name (Other n) = n"
| "node_name (Dir n _ _) = n"

fun is_dir :: "node \<Rightarrow> bool" where
  "is_dir (Dir _ _ _) = True"
| "is_dir _ = False"

fun is_file :: "node \<Rightarrow> bool" where
  "is_file (File _) = True"
| "is_file _ = False"


section \<open>The traversal\<close>

text \<open>
  \<open>find_unformatted_files_generator\<close> returns the paths it yields, in order, and the
  exception that leaves it, if any. \<open>for_items\<close> is the body of its \<open>try\<close>: the loop over
  \<open>dir_path.iterdir()\<close>, which may end by an exception after some paths were yielded.
  The \<open>except\<close> clauses of the generator discard a \<open>PermissionError\<close> and any other
  exception of class \<open>Exception\<close>; an exception outside that class leaves the generator,
  and with it every enclosing \<open>yield from\<close>. A path that is not a directory makes
  \<open>iterdir()\<close> raise \<open>NotADirectoryError\<close>, which is discarded.
\<close>

function find_unformatted_files_generator ::
    "path \<Rightarrow> node \<Rightarrow> int \<Rightarrow> int \<Rightarrow> path list \<times> exn option"
  and for_items ::
    "path \<Rightarrow> node list \<Rightarrow> (nat \<times> exn) option \<Rightarrow> int \<Rightarrow> int \<Rightarrow> path list \<times> exn option"
where
  "find_unformatted_files_generator dir_path nd max_depth current_depth =
     (if current_depth > max_depth then ([], None)
      else (case nd of
              Dir _ items fail \<Rightarrow>
                (case for_items dir_path items fail max_depth current_depth of
                   (ys, None) \<Rightarrow> (ys, None)
                 | (ys, Some e) \<Rightarrow>
                     (if e = PermissionError then (ys, None)
                      else if is_Exception e then (ys, None)
                      else (ys, Some e)))
            | _ \<Rightarrow> ([], None)))"
| "for_items dir_path [] fail max_depth current_depth = ([], map_option snd fail)"
| "for_items dir_path (item # rest) fail max_depth current_depth =
     (case fail of
        Some (0, e) \<Rightarrow> ([], Some e)
      | _ \<Rightarrow>
        (let fail' = map_option (\<lambda>(k, e). (k - 1, e)) fail in
         if startswith_dot (node_name item) then
           for_items dir_path rest fail' max_depth current_depth
         else if is_dir item then
           (case find_unformatted_files_generator (dir_path @ [node_name item]) item
                   max_depth (current_depth + 1) of
              (ys, Some e) \<Rightarrow> (ys, Some e)
            | (ys, None) \<Rightarrow>
                (case for_items dir_path rest fail' max_depth current_depth of
                   (zs, r) \<Rightarrow> (ys @ zs, r)))
         else if is_file item \<and> lower (path_suffix (node_name item)) \<in> set FILE_EXTENSIONS then
           (if \<not> FORMATTED_PATTERN_match (node_name item) then
              (case for_items dir_path rest fail' max_depth current_depth of
                 (zs, r) \<Rightarrow> ((dir_path @ [node_name item]) # zs, r))
            else for_items dir_path rest fail' max_depth current_depth)
         else for_items dir_path rest fail' max_depth current_depth))"
  by pat_completeness auto
termination
  by (relation "measure (\<lambda>x. case x of
          Inl (_, nd, _, _) \<Rightarrow> size nd
        | Inr (_, items, _, _, _) \<Rightarrow> size_list size items)") auto

declare find_unformatted_files_generator.simps [simp del]
declare for_items.simps(2) [simp del]


section \<open>The per-item operation\<close>

text \<open>
  \<open>process_file\<close> runs its body (printing the name, sleeping) inside \<open>try\<close>. The body's
  behaviour on a file is a parameter: it completes (\<open>None\<close>) or raises. An exception of
  class \<open>Exception\<close> is caught and reported as \<open>False\<close>; \<open>KeyboardInterrupt\<close> is not of that
  class and leaves the function.
\<close>

definition process_file :: "(path \<Rightarrow> exn option) \<Rightarrow> path \<Rightarrow> exn + bool" where
  "process_file body file_path =
     (case body file_path of
        None \<Rightarrow> Inr True
      | Some e \<Rightarrow> (if e = KeyboardInterrupt then Inl e else Inr False))"


section \<open>The batch runner\<close>

text \<open>
  The module constants, and the configuration that \<open>process_directory_optimized\<close> reads:
  the two limits and the operation it calls on each file.
\<close>

definition BATCH_SIZE :: int where "BATCH_SIZE = 25"
definition MAX_FILES_PER_RUN :: int where "MAX_FILES_PER_RUN = 500"

record config =
  batch_size :: int
  max_files_per_run :: int
  operation :: "path \<Rightarrow> exn + bool"

text \<open>
  What a run does that can be seen from outside, in order: it takes a path from the
  generator, calls the operation on a path, prints the line of a completed batch (batch
  number, successes and errors so far), prints that the safety limit was reached.
\<close>

datatype event = Pulled path | Called path | BatchLine int int int | SafetyLimitLine

text \<open>
  Where control is in \<open>process_directory_optimized\<close>: at the head of the outer \<open>for\<close>
  (line 83), inside the inner \<open>for\<close> of a full batch with the files still to process
  (line 88), after the outer loop (line 110), inside the loop over the remaining files
  (line 111), returned (line 121), or left by an exception. The state holds the local
  variables, and of the generator the paths it has yet to yield (\<open>gen\<close>) and how it ends
  after them (\<open>gen_end\<close>: exhausted, or by an exception that then leaves the run).
\<close>

datatype loc =
    Pull
  | Flush "path list"
  | AfterLoop
  | Tail "path list"
  | Returned
  | Escaped exn

record run_state =
  gen :: "path list"
  gen_end :: "exn option"
  success :: int
  errors :: int
  batch :: "path list"
  batch_count :: int
  pc :: loc
  trace :: "event list"

definition count_result :: "bool \<Rightarrow> run_state \<Rightarrow> run_state" where
  \<comment> \<open>\<open>if process_file(f): stats['success'] += 1 else: stats['errors'] += 1\<close>\<close>
  "count_result ok s = (if ok then s\<lparr>success := success s + 1\<rparr> else s\<lparr>errors := errors s + 1\<rparr>)"

definition step :: "config \<Rightarrow> run_state \<Rightarrow> run_state" where
  "step cfg s =
     (case pc s of
        Pull \<Rightarrow>
          (case gen s of
             [] \<Rightarrow>
               (case gen_end s of
                  None \<Rightarrow> s\<lparr>pc := AfterLoop\<rparr>
                | Some e \<Rightarrow> s\<lparr>pc := Escaped e\<rparr>)
           | file_path # rest \<Rightarrow>
               (let s1 = s\<lparr>gen := rest, batch := batch s @ [file_path],
                            trace := trace s @ [Pulled file_path]\<rparr>
                in if int (length (batch s1)) \<ge> batch_size cfg
                   then s1\<lparr>pc := Flush (batch s1)\<rparr> else s1))
      | Flush (f # fs) \<Rightarrow>
          (case operation cfg f of
             Inl e \<Rightarrow> s\<lparr>pc := Escaped e, trace := trace s @ [Called f]\<rparr>
           | Inr ok \<Rightarrow> (count_result ok s)\<lparr>pc := Flush fs, trace := trace s @ [Called f]\<rparr>)
      | Flush [] \<Rightarrow>
          (let s1 = s\<lparr>batch_count := batch_count s + 1\<rparr>;
               s2 = s1\<lparr>trace := trace s1 @ [BatchLine (batch_count s1) (success s1) (errors s1)]\<rparr>;
               s3 = s2\<lparr>batch := []\<rparr>
           in if success s3 \<ge> max_files_per_run cfg
              then s3\<lparr>trace := trace s3 @ [SafetyLimitLine], pc := AfterLoop\<rparr>
              else s3\<lparr>pc := Pull\<rparr>)
      | AfterLoop \<Rightarrow> (if batch s \<noteq> [] then s\<lparr>pc := Tail (batch s)\<rparr> else s\<lparr>pc := Returned\<rparr>)
      | Tail (f # fs) \<Rightarrow>
          (case operation cfg f of
             Inl e \<Rightarrow> s\<lparr>pc := Escaped e, trace := trace s @ [Called f]\<rparr>
           | Inr ok \<Rightarrow> (count_result ok s)\<lparr>pc := Tail fs, trace := trace s @ [Called f]\<rparr>)
      | Tail [] \<Rightarrow> s\<lparr>batch := [], pc := Returned\<rparr>
      | Returned \<Rightarrow> s
      | Escaped e \<Rightarrow> s)"

fun finished :: "run_state \<Rightarrow> bool" where
  "finished s = (case pc s of Returned \<Rightarrow> True | Escaped e \<Rightarrow> True | _ \<Rightarrow> False)"

fun rank :: "loc \<Rightarrow> nat" where
  "rank (Flush fs) = 4"
| "rank Pull = 3"
| "rank AfterLoop = 2"
| "rank (Tail fs) = 1"
| "rank _ = 0"

fun todo :: "loc \<Rightarrow> path list" where
  "todo (Flush fs) = fs"
| "todo (Tail fs) = fs"
| "todo _ = []"

function run :: "config \<Rightarrow> run_state \<Rightarrow> run_state" where
  "run cfg s = (if finished s then s else run cfg (step cfg s))"
  by pat_completeness auto
termination
  by (relation "measures [\<lambda>(cfg, s). length (gen s), \<lambda>(cfg, s). rank (pc s),
                          \<lambda>(cfg, s). length (todo (pc s))]")
     (auto simp: step_def count_result_def Let_def
           split: loc.splits list.splits option.splits sum.splits if_splits)

declare run.simps [simp del]

definition initial :: "path list \<Rightarrow> run_state" where
  \<comment> \<open>the state at line 83, over a generator that yields the candidates and is then
      exhausted\<close>
  "initial candidates =
     \<lparr>gen = candidates, gen_end = None, success = 0, errors = 0, batch = [], batch_count = 0,
      pc = Pull, trace = []\<rparr>"

definition process_directory_with :: "config \<Rightarrow> node \<Rightarrow> run_state" where
  "process_directory_with cfg dir_path =
     (case find_unformatted_files_generator [] dir_path 3 0 of
        (ys, r) \<Rightarrow> run cfg ((initial ys)\<lparr>gen_end := r\<rparr>))"

definition process_directory_optimized :: "(path \<Rightarrow> exn + bool) \<Rightarrow> node \<Rightarrow> run_state" where
  "process_directory_optimized op dir_path =
     process_directory_with
       \<lparr>batch_size = BATCH_SIZE, max_files_per_run = MAX_FILES_PER_RUN, operation = op\<rparr> dir_path"

definition returned_stats :: "run_state \<Rightarrow> exn + (int \<times> int)" where
  \<comment> \<open>what the caller gets: the exception, or \<open>stats\<close>\<close>
  "returned_stats s = (case pc s of Escaped e \<Rightarrow> Inl e | _ \<Rightarrow> Inr (success s, errors s))"

text \<open>
  \<open>main\<close>: the banner, the check that the archive path exists (\<open>None\<close>: it does not), the
  run, the summary.
\<close>

datatype printed = Banner | PathDoesNotExist | RunEvent event | Summary int int

definition main :: "(path \<Rightarrow> exn + bool) \<Rightarrow> node option \<Rightarrow> printed list \<times> exn option" where
  "main op archive_path =
     (case archive_path of
        None \<Rightarrow> ([Banner, PathDoesNotExist], None)
      | Some dir_path \<Rightarrow>
          (let s = process_directory_optimized op dir_path
           in case returned_stats s of
                Inl e \<Rightarrow> (Banner # map RunEvent (trace s), Some e)
              | Inr stats \<Rightarrow>
                  (Banner # map RunEvent (trace s) @ [Summary (fst stats) (snd stats)], None)))"


section \<open>Reading a run\<close>

text \<open>
  The states that a run passes through when its generator yields the given candidates
  and is then exhausted; the final state \<open>run cfg (initial candidates)\<close> is one of them.
\<close>

inductive reachable :: "config \<Rightarrow> path list \<Rightarrow> run_state \<Rightarrow> bool" for cfg candidates where
  at_start: "reachable cfg candidates (initial candidates)"
| after_step: "reachable cfg candidates s \<Longrightarrow> reachable cfg candidates (step cfg s)"

fun pulls :: "event list \<Rightarrow> path list" where
  "pulls [] = []"
| "pulls (Pulled f # tr) = f # pulls tr"
| "pulls (_ # tr) = pulls tr"

fun calls :: "event list \<Rightarrow> path list" where
  "calls [] = []"
| "calls (Called f # tr) = f # calls tr"
| "calls (_ # tr) = calls tr"

fun batch_lines :: "event list \<Rightarrow> (int \<times> int \<times> int) list" where
  "batch_lines [] = []"
| "batch_lines (BatchLine n a b # tr) = (n, a, b) # batch_lines tr"
| "batch_lines (_ # tr) = batch_lines tr"

definition capped :: "run_state \<Rightarrow> bool" where
  \<comment> \<open>the run left the outer loop by the \<open>break\<close> of the safety limit\<close>
  "capped s = (SafetyLimitLine \<in> set (trace s))"

definition escaped :: "run_state \<Rightarrow> bool" where
  "escaped s = (case pc s of Escaped e \<Rightarrow> True | _ \<Rightarrow> False)"

definition succeeded :: "config \<Rightarrow> path list \<Rightarrow> int" where
  \<comment> \<open>how many of the files the operation returns \<open>True\<close> on\<close>
  "succeeded cfg fs = int (length (filter (\<lambda>f. operation cfg f = Inr True) fs))"

definition failed :: "config \<Rightarrow> path list \<Rightarrow> int" where
  "failed cfg fs = int (length (filter (\<lambda>f. operation cfg f = Inr False) fs))"

definition returns :: "config \<Rightarrow> path \<Rightarrow> bool" where
  \<comment> \<open>the operation keeps its contract on the file: it returns a truth value\<close>
  "returns cfg f = (case operation cfg f of Inl e \<Rightarrow> False | Inr ok \<Rightarrow> True)"

definition expected_line :: "config \<Rightarrow> path list \<Rightarrow> nat \<Rightarrow> int \<times> int \<times> int" where
  \<comment> \<open>the line due after batch \<open>i\<close>: its number, and the successes and errors among the
      files of the first \<open>i\<close> batches\<close>
  "expected_line cfg candidates i =
     (int i, succeeded cfg (take (i * nat (batch_size cfg)) candidates),
             failed cfg (take (i * nat (batch_size cfg)) candidates))"


section \<open>Which files a scan is meant to find\<close>

text \<open>
  The description of the result that the traversal is compared with: every entry of the
  tree with its path, and the conditions under which an entry is a candidate.
\<close>

fun entries_below :: "path \<Rightarrow> node \<Rightarrow> (path \<times> node) list" where
  "entries_below p (Dir n items fail) =
     concat (map (\<lambda>c. (p @ [node_name c], c) # entries_below (p @ [node_name c]) c) items)"
| "entries_below p _ = []"

definition listed :: "node list \<Rightarrow> (nat \<times> exn) option \<Rightarrow> node list" where
  \<comment> \<open>the entries that the listing of a directory delivers before it ends or raises\<close>
  "listed items fail = (case fail of None \<Rightarrow> items | Some (k, e) \<Rightarrow> take k items)"

fun raises :: "node \<Rightarrow> bool" where
  "raises (Dir _ _ (Some _)) = True"
| "raises _ = False"

function reached :: "node \<Rightarrow> node" where
  \<comment> \<open>the part of a tree that its listings deliver: every directory cut where it raises\<close>
  "reached (Dir n items fail) = Dir n (map reached (listed items fail)) None"
| "reached (File n) = File n"
| "reached (Other n) = Other n"
  by pat_completeness auto
termination
proof (relation "measure size")
  show "wf (measure (size :: node \<Rightarrow> nat))" by simp
next
  fix n :: string and items :: "node list" and fail :: "(nat \<times> exn) option" and c
  assume "c \<in> set (listed items fail)"
  then have "c \<in> set items"
    by (auto simp: listed_def split: option.splits dest: in_set_takeD)
  then have "size c \<le> size_list size items"
    by (simp add: size_list_estimation')
  then show "(c, Dir n items fail) \<in> measure size" by simp
qed

definition extension_allowed :: "string \<Rightarrow> bool" where
  \<comment> \<open>the extension is in the allow-list, letter case ignored\<close>
  "extension_allowed nm = (\<exists>e \<in> set FILE_EXTENSIONS. lower (path_suffix nm) = lower e)"

definition has_date_prefix :: "string \<Rightarrow> bool" where
  \<comment> \<open>the name starts with \<open>YYYY-MM-DD_\<close>\<close>
  "has_date_prefix nm =
     (11 \<le> length nm \<and> list_all is_digit (take 4 nm) \<and> nm ! 4 = CHR ''-''
      \<and> list_all is_digit (take 2 (drop 5 nm)) \<and> nm ! 7 = CHR ''-''
      \<and> list_all is_digit (take 2 (drop 8 nm)) \<and> nm ! 10 = CHR ''_'')"

definition is_candidate :: "int \<Rightarrow> path \<times> node \<Rightarrow> bool" where
  \<comment> \<open>the depth of a file is the number of directories between the root and the file\<close>
  "is_candidate max_depth e =
     (is_file (snd e)
      \<and> list_all (\<lambda>c. \<not> startswith_dot c) (fst e)
      \<and> int (length (fst e)) - 1 \<le> max_depth
      \<and> extension_allowed (node_name (snd e))
      \<and> \<not> has_date_prefix (node_name (snd e)))"

fun catchable :: "node \<Rightarrow> bool" where
  \<comment> \<open>every exception that a directory of the tree raises is of class \<open>Exception\<close>\<close>
  "catchable (Dir n items fail) =
     ((case fail of None \<Rightarrow> True | Some (k, e) \<Rightarrow> is_Exception e) \<and> list_all catchable items)"
| "catchable _ = True"

fun readable :: "node \<Rightarrow> bool" where
  \<comment> \<open>no directory of the tree raises\<close>
  "readable (Dir n items fail) = (fail = None \<and> list_all readable items)"
| "readable _ = True"

fun sibling_names_distinct :: "node \<Rightarrow> bool" where
  \<comment> \<open>no directory holds two entries of the same name\<close>
  "sibling_names_distinct (Dir n items fail) =
     (distinct (map node_name items) \<and> list_all sibling_names_distinct items)"
| "sibling_names_distinct _ = True"


section \<open>Notions used in the proofs\<close>

text \<open>
  \<open>contribution\<close> is what one delivered entry adds to the paths yielded by the loop
  over its directory.
\<close>

definition file_matches :: "node \<Rightarrow> bool" where
  "file_matches c =
     (is_file c \<and> lower (path_suffix (node_name c)) \<in> set FILE_EXTENSIONS
      \<and> \<not> FORMATTED_PATTERN_match (node_name c))"

definition contribution :: "path \<Rightarrow> int \<Rightarrow> int \<Rightarrow> node \<Rightarrow> path list" where
  "contribution p md cd c =
     (if startswith_dot (node_name c) then []
      else if is_dir c then fst (find_unformatted_files_generator (p @ [node_name c]) c md (cd + 1))
      else if file_matches c then [p @ [node_name c]] else [])"

definition candidates_in :: "int \<Rightarrow> (path \<times> node) list \<Rightarrow> path set" where
  "candidates_in md es = fst ` {e \<in> set es. is_candidate md e}"

text \<open>
  Invariants of the batch runner. \<open>pending\<close> are the files taken from the generator and
  not yet passed to the operation. \<open>inv_book\<close> ties the counters to the calls made,
  \<open>inv_flow\<close> describes how the outer loop was left, \<open>inv_sizes\<close> bounds the batch,
  \<open>inv_cap\<close> bounds the successes, and \<open>inv_lines\<close> describes the printed batch lines.
\<close>

definition pending :: "run_state \<Rightarrow> path list" where
  "pending s = (case pc s of Flush fs \<Rightarrow> fs | Tail fs \<Rightarrow> fs | _ \<Rightarrow> batch s)"

definition inv_book :: "config \<Rightarrow> path list \<Rightarrow> run_state \<Rightarrow> bool" where
  "inv_book cfg candidates s =
     (pulls (trace s) @ gen s = candidates
      \<and> gen_end s = None
      \<and> (case pc s of
            Escaped e \<Rightarrow>
              calls (trace s) \<noteq> []
              \<and> operation cfg (last (calls (trace s))) = Inl e
              \<and> list_all (returns cfg) (butlast (calls (trace s)))
              \<and> success s = succeeded cfg (butlast (calls (trace s)))
              \<and> errors s = failed cfg (butlast (calls (trace s)))
              \<and> prefix (calls (trace s)) (pulls (trace s))
          | Returned \<Rightarrow>
              batch s = []
              \<and> calls (trace s) = pulls (trace s)
              \<and> list_all (returns cfg) (calls (trace s))
              \<and> success s = succeeded cfg (calls (trace s))
              \<and> errors s = failed cfg (calls (trace s))
          | _ \<Rightarrow>
              calls (trace s) @ pending s = pulls (trace s)
              \<and> list_all (returns cfg) (calls (trace s))
              \<and> success s = succeeded cfg (calls (trace s))
              \<and> errors s = failed cfg (calls (trace s))))"

definition inv_flow :: "config \<Rightarrow> run_state \<Rightarrow> bool" where
  "inv_flow cfg s =
     (if capped s
      then max_files_per_run cfg \<le> success s \<and> batch s = [] \<and> (pc s = AfterLoop \<or> pc s = Returned)
      else (case pc s of
              AfterLoop \<Rightarrow> gen s = []
            | Tail fs \<Rightarrow> gen s = []
            | Returned \<Rightarrow> gen s = []
            | _ \<Rightarrow> True))"

definition inv_sizes :: "config \<Rightarrow> run_state \<Rightarrow> bool" where
  "inv_sizes cfg s =
     (case pc s of
        Pull \<Rightarrow> int (length (batch s)) < batch_size cfg
      | Flush fs \<Rightarrow> int (length (batch s)) = batch_size cfg \<and> length fs \<le> length (batch s)
      | AfterLoop \<Rightarrow> int (length (batch s)) < batch_size cfg
      | Tail fs \<Rightarrow> batch s \<noteq> [] \<and> int (length (batch s)) < batch_size cfg
                   \<and> length fs \<le> length (batch s) \<and> gen s = []
      | Returned \<Rightarrow> batch s = []
      | Escaped e \<Rightarrow> int (length (batch s)) \<le> batch_size cfg)"

definition inv_cap :: "config \<Rightarrow> run_state \<Rightarrow> bool" where
  "inv_cap cfg s =
     (case pc s of
        Pull \<Rightarrow> success s < max_files_per_run cfg
      | Flush fs \<Rightarrow> success s + int (length fs) < max_files_per_run cfg + batch_size cfg
      | _ \<Rightarrow> capped s \<longrightarrow> success s < max_files_per_run cfg + batch_size cfg)"

definition inv_lines :: "config \<Rightarrow> path list \<Rightarrow> run_state \<Rightarrow> bool" where
  "inv_lines cfg candidates s =
     (0 \<le> batch_count s
      \<and> batch_lines (trace s) = map (expected_line cfg candidates) [1..<Suc (nat (batch_count s))]
      \<and> (case pc s of
            Pull \<Rightarrow> int (length (calls (trace s))) = batch_size cfg * batch_count s
          | Flush fs \<Rightarrow>
              int (length (calls (trace s))) + int (length fs) = batch_size cfg * batch_count s + batch_size cfg
          | AfterLoop \<Rightarrow> int (length (calls (trace s))) = batch_size cfg * batch_count s
          | Tail fs \<Rightarrow>
              int (length (calls (trace s))) + int (length fs)
                = batch_size cfg * batch_count s + int (length (batch s))
          | Returned \<Rightarrow>
              batch_size cfg * batch_count s \<le> int (length (calls (trace s)))
              \<and> int (length (calls (trace s))) < batch_size cfg * batch_count s + batch_size cfg
              \<and> (capped s \<longrightarrow> int (length (calls (trace s))) = batch_size cfg * batch_count s)
          | Escaped e \<Rightarrow> True))"


section \<open>Example inputs\<close>

definition example_tree :: node where
  "example_tree =
     Dir ''archive''
       [File ''a.pdf'',
        Dir ''2023'' [File ''b.TXT'', File ''2024-01-02_x.pdf''] None,
        File ''.h.pdf'',
        File ''c.jpg'',
        Dir ''locked'' [File ''z.pdf''] (Some (0, PermissionError)),
        Dir ''open'' [File ''d.docx''] None]
       None"

definition plain_tree :: node where
  "plain_tree =
     Dir ''archive''
       [File ''a.pdf'', Dir ''2023'' [File ''b.TXT'', File ''2024-01-02_x.pdf''] None, File ''c.jpg'']
       None"

definition interrupted_tree :: node where
  "interrupted_tree =
     Dir ''archive''
       [File ''before.pdf'',
        Dir ''sub'' [File ''x.pdf''] (Some (0, KeyboardInterrupt)),
        File ''after.pdf'']
       None"

definition limit_config :: config where
  "limit_config =
     \<lparr>batch_size = 2, max_files_per_run = 2,
      operation = (\<lambda>f. if f = [''a.pdf''] then Inr False else Inr True)\<rparr>"

definition limit_example :: run_state where
  "limit_example = run limit_config (initial [[''a.pdf''], [''b.pdf''], [''c.pdf''], [''d.pdf'']])"

definition hundred_config :: config where
  "hundred_config = \<lparr>batch_size = 25, max_files_per_run = 100, operation = (\<lambda>f. Inr True)\<rparr>"

definition hundred_files :: "path list" where
  "hundred_files =
     concat (map (\<lambda>c. map (\<lambda>d. [[c, d] @ ''.pdf'']) ''0123456789'') ''0123456789'')"

definition hundred_example :: run_state where
  "hundred_example = run hundred_config (initial hundred_files)"

definition tail_config :: config where
  "tail_config =
     \<lparr>batch_size = 2, max_files_per_run = 500,
      operation = (\<lambda>f. if f = [''confidential.pdf''] then Inr False else Inr True)\<rparr>"

definition tail_example :: run_state where
  "tail_example = run tail_config (initial [[''a.pdf''], [''confidential.pdf''], [''b.pdf'']])"

definition interrupt_config :: config where
  "interrupt_config =
     \<lparr>batch_size = 2, max_files_per_run = 500,
      operation = process_file (\<lambda>f. if f = [''b.pdf''] then Some KeyboardInterrupt else None)\<rparr>"

definition interrupt_example :: run_state where
  "interrupt_example = run interrupt_config (initial [[''a.pdf''], [''b.pdf''], [''c.pdf'']])"


section \<open>Lemmas\<close>

subsection \<open>Names and the loop over a directory\<close>

lemma for_items_raises:
  assumes "\<And>c. c \<in> set items \<Longrightarrow>
             snd (find_unformatted_files_generator (p @ [node_name c]) c md (cd + 1)) = None"
    and "snd (for_items p items fail md cd) = Some e"
  shows "\<exists>k. fail = Some (k, e)"
  using assms
proof (induction items arbitrary: fail)
  case Nil
  then show ?case by (cases fail) auto
next
  case (Cons c cs)
  from Cons.prems(1)[of c]
  have c: "snd (find_unformatted_files_generator (p @ [node_name c]) c md (cd + 1)) = None"
    by simp
  show ?case
  proof (cases "\<exists>e'. fail = Some (0, e')")
    case True
    with Cons.prems(2) show ?thesis by (auto simp: for_items.simps(2))
  next
    case False
    let ?fail' = "map_option (\<lambda>(k, e). (k - 1, e)) fail"
    from False Cons.prems(2) c have "snd (for_items p cs ?fail' md cd) = Some e"
      by (auto simp: for_items.simps(2) Let_def
               split: option.splits prod.splits nat.splits if_splits)
    from Cons.IH[OF _ this] Cons.prems(1) obtain k where "?fail' = Some (k, e)" by auto
    then show ?thesis by (cases fail) auto
  qed
qed

lemma generator_never_raises:
  "catchable nd \<Longrightarrow> snd (find_unformatted_files_generator p nd md cd) = None"
proof (induction nd arbitrary: p cd)
  case (Dir n items fail)
  have children: "snd (find_unformatted_files_generator (p @ [node_name c]) c md (cd + 1)) = None"
    if "c \<in> set items" for c
    using that Dir.IH[of c] Dir.prems by (simp add: list_all_iff)
  have "is_Exception e" if "snd (for_items p items fail md cd) = Some e" for e
    using for_items_raises[OF children that] Dir.prems by auto
  then show ?case
    by (auto simp: find_unformatted_files_generator.simps split: prod.splits option.splits)
qed (simp_all add: find_unformatted_files_generator.simps)

lemma lower_FILE_EXTENSIONS: "e \<in> set FILE_EXTENSIONS \<Longrightarrow> lower e = e"
  by (auto simp: FILE_EXTENSIONS_def lower_def lower_char_def)

lemma extension_allowed_iff:
  "extension_allowed nm \<longleftrightarrow> lower (path_suffix nm) \<in> set FILE_EXTENSIONS"
  unfolding extension_allowed_def using lower_FILE_EXTENSIONS by metis

lemma digits_Some_iff:
  "digits n s = Some r \<longleftrightarrow> n \<le> length s \<and> list_all is_digit (take n s) \<and> r = drop n s"
  by (induction n s rule: digits.induct) auto

lemma literal_Some_iff:
  "literal c s = Some r \<longleftrightarrow> s \<noteq> [] \<and> hd s = c \<and> r = tl s"
  by (cases s) auto

lemma literal_drop:
  "literal c (drop k s) = Some r \<longleftrightarrow> k < length s \<and> s ! k = c \<and> r = drop (Suc k) s"
  by (auto simp: literal_Some_iff hd_drop_conv_nth drop_Suc tl_drop)

lemma has_date_prefix_iff: "has_date_prefix nm \<longleftrightarrow> FORMATTED_PATTERN_match nm"
proof -
  have "FORMATTED_PATTERN_match nm \<longleftrightarrow>
     (\<exists>r. Option.bind (Option.bind (Option.bind (Option.bind (Option.bind
        (digits 4 nm) (literal CHR ''-'')) (digits 2)) (literal CHR ''-'')) (digits 2))
        (literal CHR ''_'') = Some r)"
    by (simp add: FORMATTED_PATTERN_match_def)
  also have "\<dots> \<longleftrightarrow> has_date_prefix nm"
    by (auto simp: bind_eq_Some_conv digits_Some_iff literal_drop has_date_prefix_def)
  finally show ?thesis by simp
qed

lemma for_items_Cons:
  "catchable c \<Longrightarrow> fst (for_items p (c # cs) fail md cd) =
     (case fail of Some (0, e) \<Rightarrow> []
      | _ \<Rightarrow> contribution p md cd c @ fst (for_items p cs (map_option (\<lambda>(k, e). (k - 1, e)) fail) md cd))"
  using generator_never_raises[of c "p @ [node_name c]" md "cd + 1"]
  by (auto simp: for_items.simps(2) contribution_def file_matches_def Let_def split: option.splits prod.splits nat.splits)

lemma listed_Cons:
  "listed (c # cs) fail = (case fail of Some (0, e) \<Rightarrow> [] | _ \<Rightarrow> c # listed cs (map_option (\<lambda>(k, e). (k - 1, e)) fail))"
  by (auto simp: listed_def split: option.splits nat.splits)

lemma for_items_concat:
  "list_all catchable items \<Longrightarrow> fst (for_items p items fail md cd) = concat (map (contribution p md cd) (listed items fail))"
proof (induction items arbitrary: fail)
  case Nil
  then show ?case by (simp add: listed_def split: option.splits)
next
  case (Cons c cs)
  then show ?case
    by (simp add: for_items_Cons listed_Cons Cons.IH split: option.splits nat.splits)
qed

lemma generator_fst_Dir:
  "fst (find_unformatted_files_generator p (Dir n items fail) md cd) =
     (if cd > md then [] else fst (for_items p items fail md cd))"
  by (simp add: find_unformatted_files_generator.simps split: prod.splits option.splits)

lemma generator_Dir:
  "list_all catchable items \<Longrightarrow>
   fst (find_unformatted_files_generator p (Dir n items fail) md cd) =
     (if cd > md then [] else concat (map (contribution p md cd) (listed items fail)))"
  by (simp add: generator_fst_Dir for_items_concat)

lemma generator_not_Dir:
  "\<not> is_dir nd \<Longrightarrow> fst (find_unformatted_files_generator p nd md cd) = []"
  by (cases nd) (simp_all add: find_unformatted_files_generator.simps)

subsection \<open>The yielded paths are the candidates of the delivered tree\<close>

lemma node_name_reached [simp]: "node_name (reached nd) = node_name nd"
  by (cases nd) simp_all

lemma is_file_reached [simp]: "is_file (reached nd) = is_file nd"
  by (cases nd) simp_all

lemma is_dir_reached [simp]: "is_dir (reached nd) = is_dir nd"
  by (cases nd) simp_all

lemma entries_below_extend:
  "(q, x) \<in> set (entries_below p nd) \<Longrightarrow> \<exists>r. r \<noteq> [] \<and> q = p @ r"
proof (induction nd arbitrary: p)
  case (Dir n items fail)
  from Dir.prems obtain c where c: "c \<in> set items"
    and q: "(q, x) = (p @ [node_name c], c) \<or> (q, x) \<in> set (entries_below (p @ [node_name c]) c)"
    by auto
  from q show ?case
  proof
    assume "(q, x) = (p @ [node_name c], c)"
    then show ?thesis by auto
  next
    assume "(q, x) \<in> set (entries_below (p @ [node_name c]) c)"
    from Dir.IH[OF c this] show ?thesis by auto
  qed
qed simp_all

lemma file_matches_candidate:
  "is_candidate md (p @ [node_name c], reached c) \<longleftrightarrow>
     file_matches c \<and> list_all (\<lambda>c. \<not> startswith_dot c) p \<and> \<not> startswith_dot (node_name c)
       \<and> int (length p) \<le> md"
  by (auto simp: is_candidate_def file_matches_def extension_allowed_iff has_date_prefix_iff)

lemma no_candidate_below_hidden:
  assumes "startswith_dot nm" and "(q, x) \<in> set (entries_below (p @ [nm]) nd)"
  shows "\<not> is_candidate md (q, x)"
proof -
  from entries_below_extend[OF assms(2)] obtain r where "q = (p @ [nm]) @ r" by auto
  with assms(1) show ?thesis by (simp add: is_candidate_def)
qed

lemma no_candidate_too_deep:
  assumes "int (length p) > md" and "(q, x) \<in> set (entries_below p nd)"
  shows "\<not> is_candidate md (q, x)"
proof -
  from entries_below_extend[OF assms(2)] obtain r where "r \<noteq> []" "q = p @ r" by auto
  then have "length q \<ge> length p + 1" by (cases r) auto
  with assms(1) show ?thesis by (simp add: is_candidate_def)
qed

lemma candidates_in_simps [simp]:
  "candidates_in md [] = {}"
  "candidates_in md (e # es) = (if is_candidate md e then {fst e} else {}) \<union> candidates_in md es"
  "candidates_in md (es @ fs) = candidates_in md es \<union> candidates_in md fs"
  by (auto simp: candidates_in_def)

lemma candidates_in_concat:
  "candidates_in md (concat ess) = (\<Union>es \<in> set ess. candidates_in md es)"
  by (induction ess) auto

lemma candidates_in_empty:
  "(\<And>e. e \<in> set es \<Longrightarrow> \<not> is_candidate md e) \<Longrightarrow> candidates_in md es = {}"
  by (auto simp: candidates_in_def)

lemma traversal_char:
  "catchable nd \<Longrightarrow> list_all (\<lambda>c. \<not> startswith_dot c) p \<Longrightarrow> int (length p) = cd \<Longrightarrow>
   set (fst (find_unformatted_files_generator p nd md cd))
     = candidates_in md (entries_below p (reached nd))"
proof (induction nd arbitrary: p cd)
  case (File n)
  then show ?case by (simp add: generator_not_Dir)
next
  case (Other n)
  then show ?case by (simp add: generator_not_Dir)
next
  case (Dir n items fail)
  from Dir.prems(1) have ca: "list_all catchable items" by simp
  let ?L = "listed items fail"
  have L: "set ?L \<subseteq> set items"
    by (auto simp: listed_def split: option.splits dest: in_set_takeD)
  show ?case
  proof (cases "cd > md")
    case True
    have "candidates_in md (entries_below p (reached (Dir n items fail))) = {}"
    proof (rule candidates_in_empty)
      fix e assume a: "e \<in> set (entries_below p (reached (Dir n items fail)))"
      obtain q x where e: "e = (q, x)" by (cases e)
      from True Dir.prems(3) have "int (length p) > md" by simp
      from no_candidate_too_deep[OF this a[unfolded e]] e show "\<not> is_candidate md e" by simp
    qed
    with True ca show ?thesis by (simp add: generator_Dir)
  next
    case False
    have each: "set (contribution p md cd c) =
        candidates_in md ((p @ [node_name c], reached c) # entries_below (p @ [node_name c]) (reached c))"
      if c: "c \<in> set ?L" for c
    proof (cases "startswith_dot (node_name c)")
      case True
      have "candidates_in md (entries_below (p @ [node_name c]) (reached c)) = {}"
        by (rule candidates_in_empty) (use True no_candidate_below_hidden in auto)
      with True show ?thesis
        by (simp add: contribution_def file_matches_candidate)
    next
      case nh: False
      show ?thesis
      proof (cases "is_dir c")
        case True
        from c L have ci: "c \<in> set items" by auto
        with ca have "catchable c" by (simp add: list_all_iff)
        from Dir.IH[OF ci this, of "p @ [node_name c]" "cd + 1"] Dir.prems nh
        have "set (fst (find_unformatted_files_generator (p @ [node_name c]) c md (cd + 1)))
            = candidates_in md (entries_below (p @ [node_name c]) (reached c))"
          by simp
        moreover have "\<not> file_matches c" using True by (cases c) (simp_all add: file_matches_def)
        ultimately show ?thesis using True nh
          by (simp add: contribution_def file_matches_candidate)
      next
        case nd: False
        then have "entries_below (p @ [node_name c]) (reached c) = []"
          by (cases c) simp_all
        with nd nh False Dir.prems show ?thesis
          by (simp add: contribution_def file_matches_candidate)
      qed
    qed
    have "set (fst (find_unformatted_files_generator p (Dir n items fail) md cd))
        = (\<Union>c \<in> set ?L. set (contribution p md cd c))"
      using False ca by (simp add: generator_Dir)
    also have "\<dots> = (\<Union>c \<in> set ?L.
        candidates_in md ((p @ [node_name c], reached c) # entries_below (p @ [node_name c]) (reached c)))"
      using each by simp
    also have "\<dots> = candidates_in md (entries_below p (reached (Dir n items fail)))"
      by (simp add: candidates_in_concat)
    finally show ?thesis .
  qed
qed

subsection \<open>No path is yielded twice\<close>

lemma set_listed_subset: "set (listed items fail) \<subseteq> set items"
  by (auto simp: listed_def split: option.splits dest: in_set_takeD)

lemma distinct_names_listed:
  "distinct (map node_name items) \<Longrightarrow> distinct (map node_name (listed items fail))"
  by (auto simp: listed_def take_map[symmetric] split: option.splits)

lemma generator_extend:
  "catchable nd \<Longrightarrow> q \<in> set (fst (find_unformatted_files_generator p nd md cd)) \<Longrightarrow> \<exists>r. r \<noteq> [] \<and> q = p @ r"
proof (induction nd arbitrary: p cd)
  case (Dir n items fail)
  from Dir.prems(1) have ca: "list_all catchable items" by simp
  from Dir.prems(2) ca obtain c where c: "c \<in> set (listed items fail)"
    and q: "q \<in> set (contribution p md cd c)"
    by (auto simp: generator_Dir split: if_splits)
  from c set_listed_subset have c': "c \<in> set items" by auto
  with ca have cc: "catchable c" by (simp add: list_all_iff)
  show ?case
  proof (cases "is_dir c \<and> \<not> startswith_dot (node_name c)")
    case True
    with q have "q \<in> set (fst (find_unformatted_files_generator (p @ [node_name c]) c md (cd + 1)))"
      by (simp add: contribution_def)
    from Dir.IH[OF c' cc this] show ?thesis by auto
  next
    case False
    with q show ?thesis by (auto simp: contribution_def split: if_splits)
  qed
qed (simp_all add: generator_not_Dir)

lemma contribution_shape:
  assumes "catchable c" and "q \<in> set (contribution p md cd c)"
  shows "\<exists>r. q = p @ node_name c # r"
proof (cases "is_dir c \<and> \<not> startswith_dot (node_name c)")
  case True
  with assms(2) have "q \<in> set (fst (find_unformatted_files_generator (p @ [node_name c]) c md (cd + 1)))"
    by (simp add: contribution_def)
  from generator_extend[OF assms(1) this] show ?thesis by auto
next
  case False
  with assms(2) show ?thesis by (auto simp: contribution_def split: if_splits)
qed

lemma distinct_contributions:
  "list_all catchable cs \<Longrightarrow> distinct (map node_name cs) \<Longrightarrow> (\<And>c. c \<in> set cs \<Longrightarrow> distinct (contribution p md cd c))
   \<Longrightarrow> distinct (concat (map (contribution p md cd) cs))"
proof (induction cs)
  case Nil
  then show ?case by simp
next
  case (Cons c cs)
  have "set (contribution p md cd c) \<inter> set (contribution p md cd c') = {}" if "c' \<in> set cs" for c'
  proof -
    from that Cons.prems(2) have "node_name c \<noteq> node_name c'" by auto
    moreover from that Cons.prems(1) have "catchable c" "catchable c'"
      by (simp_all add: list_all_iff)
    ultimately show ?thesis
      using contribution_shape[of c _ p md cd] contribution_shape[of c' _ p md cd] by fastforce
  qed
  with Cons show ?case by auto
qed

lemma generator_distinct:
  "catchable nd \<Longrightarrow> sibling_names_distinct nd \<Longrightarrow> distinct (fst (find_unformatted_files_generator p nd md cd))"
proof (induction nd arbitrary: p cd)
  case (Dir n items fail)
  from Dir.prems(1) have ca: "list_all catchable items" by simp
  then have cl: "list_all catchable (listed items fail)"
    using set_listed_subset[of items fail] by (auto simp: list_all_iff)
  have "distinct (contribution p md cd c)" if "c \<in> set (listed items fail)" for c
  proof -
    from that set_listed_subset have c: "c \<in> set items" by auto
    with Dir.prems ca have "catchable c" "sibling_names_distinct c"
      by (simp_all add: list_all_iff)
    from Dir.IH[OF c this] show ?thesis by (simp add: contribution_def)
  qed
  moreover from Dir.prems have "distinct (map node_name (listed items fail))"
    by (simp add: distinct_names_listed)
  ultimately show ?case
    using ca cl by (simp add: generator_Dir distinct_contributions)
qed (simp_all add: generator_not_Dir)

subsection \<open>Readable trees and raising directories\<close>

lemma reached_readable: "readable nd \<Longrightarrow> reached nd = nd"
  by (induction nd) (auto simp: listed_def list_all_iff map_idI)

lemma contribution_reached:
  assumes "is_dir c \<Longrightarrow> fst (find_unformatted_files_generator (p @ [node_name c]) (reached c) md (cd + 1))
      = fst (find_unformatted_files_generator (p @ [node_name c]) c md (cd + 1))"
  shows "contribution p md cd (reached c) = contribution p md cd c"
  using assms by (cases c) (simp_all add: contribution_def file_matches_def)

lemma catchable_reached: "catchable (reached nd)"
  by (induction nd) (auto simp: list_all_iff dest: subsetD[OF set_listed_subset])

lemma readable_catchable: "readable nd \<Longrightarrow> catchable nd"
  by (induction nd) (auto simp: list_all_iff)

lemma generator_reached:
  "catchable nd \<Longrightarrow>
   fst (find_unformatted_files_generator p (reached nd) md cd)
     = fst (find_unformatted_files_generator p nd md cd)"
proof (induction nd arbitrary: p cd)
  case (Dir n items fail)
  from Dir.prems have ca: "list_all catchable items" by simp
  have cr: "list_all catchable (map reached (listed items fail))"
    by (simp add: list_all_iff catchable_reached)
  have "contribution p md cd (reached c) = contribution p md cd c"
    if "c \<in> set (listed items fail)" for c
  proof (rule contribution_reached)
    from that set_listed_subset have c: "c \<in> set items" by auto
    with ca have "catchable c" by (simp add: list_all_iff)
    from Dir.IH[OF c this]
    show "fst (find_unformatted_files_generator (p @ [node_name c]) (reached c) md (cd + 1))
      = fst (find_unformatted_files_generator (p @ [node_name c]) c md (cd + 1))" .
  qed
  then show ?case
    using ca cr by (simp add: generator_Dir listed_def[of _ None] o_def cong: map_cong)
qed (simp_all add: generator_not_Dir)

lemma for_items_cut:
  "fst (for_items p items (Some (k, e)) md cd) = fst (for_items p (take k items) None md cd)"
proof (induction items arbitrary: k)
  case Nil
  then show ?case by simp
next
  case (Cons c cs)
  show ?case
  proof (cases k)
    case 0
    then show ?thesis by (simp add: for_items.simps(2))
  next
    case (Suc k')
    with Cons.IH[of k'] show ?thesis
      by (auto simp: for_items.simps(2) Let_def split: prod.splits option.splits)
  qed
qed

lemma generator_cut:
  "fst (find_unformatted_files_generator p (Dir n items (Some (k, e))) md cd)
     = fst (find_unformatted_files_generator p (Dir n (take k items) None) md cd)"
  by (simp add: generator_fst_Dir for_items_cut)

lemma entries_strict_prefix:
  "(q, x) \<in> set (entries_below p nd) \<Longrightarrow> strict_prefix p q"
  using entries_below_extend[of q x p nd] by (auto simp: strict_prefix_def prefix_def)

lemma delivered_entry:
  assumes "(q, x) \<in> set (entries_below p nd)"
    and "\<And>p' d. (p', d) \<in> set ((p, nd) # entries_below p nd) \<Longrightarrow> raises d \<Longrightarrow> \<not> strict_prefix p' q"
  shows "(q, reached x) \<in> set (entries_below p (reached nd))"
  using assms
proof (induction nd arbitrary: p)
  case (Dir n items fail)
  from entries_strict_prefix[OF Dir.prems(1)] Dir.prems(2)[of p "Dir n items fail"]
  have "\<not> raises (Dir n items fail)" by auto
  then have fail: "fail = None" by (cases fail) simp_all
  from Dir.prems(1) obtain c where c: "c \<in> set items"
    and q: "(q, x) = (p @ [node_name c], c) \<or> (q, x) \<in> set (entries_below (p @ [node_name c]) c)"
    by auto
  from q show ?case
  proof
    assume "(q, x) = (p @ [node_name c], c)"
    with c fail show ?thesis by (force simp: listed_def)
  next
    assume below: "(q, x) \<in> set (entries_below (p @ [node_name c]) c)"
    have "(q, reached x) \<in> set (entries_below (p @ [node_name c]) (reached c))"
    proof (rule Dir.IH[OF c below])
      fix p' d
      assume "(p', d) \<in> set ((p @ [node_name c], c) # entries_below (p @ [node_name c]) c)"
        and r: "raises d"
      with c have "(p', d) \<in> set (entries_below p (Dir n items fail))" by auto
      with Dir.prems(2)[of p' d] r show "\<not> strict_prefix p' q" by simp
    qed
    with c fail show ?thesis by (force simp: listed_def)
  qed
qed simp_all

lemma is_candidate_reached: "is_candidate md (q, reached x) = is_candidate md (q, x)"
  by (simp add: is_candidate_def)

subsection \<open>One step of the batch runner\<close>

lemma pulls_append [simp]: "pulls (tr @ tr') = pulls tr @ pulls tr'"
  by (induction tr rule: pulls.induct) simp_all

lemma calls_append [simp]: "calls (tr @ tr') = calls tr @ calls tr'"
  by (induction tr rule: calls.induct) simp_all

lemma batch_lines_append [simp]: "batch_lines (tr @ tr') = batch_lines tr @ batch_lines tr'"
  by (induction tr rule: batch_lines.induct) simp_all

lemma succeeded_snoc:
  "succeeded cfg (fs @ [f]) = succeeded cfg fs + (if operation cfg f = Inr True then 1 else 0)"
  by (simp add: succeeded_def)

lemma failed_snoc:
  "failed cfg (fs @ [f]) = failed cfg fs + (if operation cfg f = Inr False then 1 else 0)"
  by (simp add: failed_def)

lemma prefix_snoc_of_split: "xs @ y # ys = zs \<Longrightarrow> prefix (xs @ [y]) zs"
  by (auto simp: prefix_def)

lemma step_cases [case_names pull_end pull_raise pull_more pull_full flush_raise flush_ok flush_err
    flush_end_cap flush_end after_tail after_ret tail_raise tail_ok tail_err tail_end halted]:
  obtains
    "pc s = Pull" "gen s = []" "gen_end s = None" "step cfg s = s\<lparr>pc := AfterLoop\<rparr>"
  | e where "pc s = Pull" "gen s = []" "gen_end s = Some e" "step cfg s = s\<lparr>pc := Escaped e\<rparr>"
  | f rest where "pc s = Pull" "gen s = f # rest" "int (length (batch s)) + 1 < batch_size cfg"
      "step cfg s = s\<lparr>gen := rest, batch := batch s @ [f], trace := trace s @ [Pulled f]\<rparr>"
  | f rest where "pc s = Pull" "gen s = f # rest" "batch_size cfg \<le> int (length (batch s)) + 1"
      "step cfg s = s\<lparr>gen := rest, batch := batch s @ [f], trace := trace s @ [Pulled f],
                        pc := Flush (batch s @ [f])\<rparr>"
  | f fs e where "pc s = Flush (f # fs)" "operation cfg f = Inl e"
      "step cfg s = s\<lparr>pc := Escaped e, trace := trace s @ [Called f]\<rparr>"
  | f fs where "pc s = Flush (f # fs)" "operation cfg f = Inr True"
      "step cfg s = s\<lparr>success := success s + 1, pc := Flush fs, trace := trace s @ [Called f]\<rparr>"
  | f fs where "pc s = Flush (f # fs)" "operation cfg f = Inr False"
      "step cfg s = s\<lparr>errors := errors s + 1, pc := Flush fs, trace := trace s @ [Called f]\<rparr>"
  | "pc s = Flush []" "max_files_per_run cfg \<le> success s"
      "step cfg s = s\<lparr>batch_count := batch_count s + 1,
          trace := trace s @ [BatchLine (batch_count s + 1) (success s) (errors s), SafetyLimitLine],
          batch := [], pc := AfterLoop\<rparr>"
  | "pc s = Flush []" "success s < max_files_per_run cfg"
      "step cfg s = s\<lparr>batch_count := batch_count s + 1,
          trace := trace s @ [BatchLine (batch_count s + 1) (success s) (errors s)],
          batch := [], pc := Pull\<rparr>"
  | "pc s = AfterLoop" "batch s \<noteq> []" "step cfg s = s\<lparr>pc := Tail (batch s)\<rparr>"
  | "pc s = AfterLoop" "batch s = []" "step cfg s = s\<lparr>pc := Returned\<rparr>"
  | f fs e where "pc s = Tail (f # fs)" "operation cfg f = Inl e"
      "step cfg s = s\<lparr>pc := Escaped e, trace := trace s @ [Called f]\<rparr>"
  | f fs where "pc s = Tail (f # fs)" "operation cfg f = Inr True"
      "step cfg s = s\<lparr>success := success s + 1, pc := Tail fs, trace := trace s @ [Called f]\<rparr>"
  | f fs where "pc s = Tail (f # fs)" "operation cfg f = Inr False"
      "step cfg s = s\<lparr>errors := errors s + 1, pc := Tail fs, trace := trace s @ [Called f]\<rparr>"
  | "pc s = Tail []" "step cfg s = s\<lparr>batch := [], pc := Returned\<rparr>"
  | "finished s" "step cfg s = s"
proof (cases "pc s")
  case Pull
  show ?thesis
  proof (cases "gen s")
    case Nil
    with Pull show ?thesis using that(1,2) by (cases "gen_end s") (simp_all add: step_def)
  next
    case (Cons f rest)
    with Pull show ?thesis
      using that(3,4)
      by (cases "int (length (batch s)) + 1 < batch_size cfg") (simp_all add: step_def Let_def)
  qed
next
  case (Flush fs)
  show ?thesis
  proof (cases fs)
    case Nil
    with Flush show ?thesis
      using that(8,9) by (cases "max_files_per_run cfg \<le> success s") (auto simp: step_def Let_def)
  next
    case (Cons f fs')
    show ?thesis
    proof (cases "operation cfg f")
      case (Inl e)
      with Flush Cons show ?thesis using that(5) by (simp add: step_def)
    next
      case (Inr ok)
      with Flush Cons show ?thesis
        using that(6,7) by (cases ok) (simp_all add: step_def count_result_def)
    qed
  qed
next
  case AfterLoop
  then show ?thesis using that(10,11) by (cases "batch s = []") (simp_all add: step_def)
next
  case (Tail fs)
  show ?thesis
  proof (cases fs)
    case Nil
    with Tail show ?thesis using that(15) by (simp add: step_def)
  next
    case (Cons f fs')
    show ?thesis
    proof (cases "operation cfg f")
      case (Inl e)
      with Tail Cons show ?thesis using that(12) by (simp add: step_def)
    next
      case (Inr ok)
      with Tail Cons show ?thesis
        using that(13,14) by (cases ok) (simp_all add: step_def count_result_def)
    qed
  qed
next
  case Returned
  then show ?thesis using that(16) by (simp add: step_def)
next
  case (Escaped e)
  then show ?thesis using that(16) by (simp add: step_def)
qed

subsection \<open>The invariants hold in every reachable state\<close>

lemma inv_book_initial: "inv_book cfg candidates (initial candidates)"
  by (simp add: inv_book_def initial_def pending_def succeeded_def failed_def)

lemma inv_book_step:
  "inv_book cfg candidates s \<Longrightarrow> inv_book cfg candidates (step cfg s)"
  by (cases rule: step_cases[of s cfg])
     (auto simp: inv_book_def pending_def succeeded_snoc failed_snoc returns_def
           intro: prefix_snoc_of_split split: loc.splits)

lemma reachable_inv_book: "reachable cfg candidates s \<Longrightarrow> inv_book cfg candidates s"
  by (induction rule: reachable.induct) (simp_all add: inv_book_initial inv_book_step)

lemma reachable_run: "reachable cfg candidates s \<Longrightarrow> reachable cfg candidates (run cfg s)"
proof (induction cfg s rule: run.induct)
  case (1 cfg s)
  show ?case
  proof (cases "finished s")
    case True
    with 1 show ?thesis by (simp add: run.simps)
  next
    case False
    with 1 have "reachable cfg candidates (run cfg (step cfg s))"
      by (simp add: reachable.after_step)
    with False show ?thesis by (subst run.simps) simp
  qed
qed

lemma finished_run: "finished (run cfg s)"
proof (induction cfg s rule: run.induct)
  case (1 cfg s)
  then show ?case by (subst run.simps) simp
qed

lemma capped_initial [simp]: "\<not> capped (initial candidates)"
  by (simp add: capped_def initial_def)

lemma inv_flow_initial: "inv_flow cfg (initial candidates)"
  by (simp add: inv_flow_def) (simp add: initial_def)

lemma inv_flow_step: "inv_flow cfg s \<Longrightarrow> inv_flow cfg (step cfg s)"
  by (cases rule: step_cases[of s cfg])
     (auto simp: inv_flow_def capped_def split: loc.splits if_splits)

lemma reachable_inv_flow: "reachable cfg candidates s \<Longrightarrow> inv_flow cfg s"
  by (induction rule: reachable.induct) (simp_all add: inv_flow_initial inv_flow_step)

lemma inv_sizes_initial: "1 \<le> batch_size cfg \<Longrightarrow> inv_sizes cfg (initial candidates)"
  by (simp add: inv_sizes_def initial_def)

lemma inv_sizes_step:
  "1 \<le> batch_size cfg \<Longrightarrow> inv_flow cfg s \<Longrightarrow> inv_sizes cfg s \<Longrightarrow> inv_sizes cfg (step cfg s)"
  by (cases rule: step_cases[of s cfg])
     (auto simp: inv_sizes_def inv_flow_def capped_def split: loc.splits if_splits)

lemma reachable_inv_sizes:
  "reachable cfg candidates s \<Longrightarrow> 1 \<le> batch_size cfg \<Longrightarrow> inv_sizes cfg s"
  by (induction rule: reachable.induct)
     (simp_all add: inv_sizes_initial inv_sizes_step reachable_inv_flow)

lemma inv_cap_initial: "1 \<le> max_files_per_run cfg \<Longrightarrow> inv_cap cfg (initial candidates)"
  by (simp add: inv_cap_def initial_def)

lemma inv_cap_step:
  "inv_sizes cfg s \<Longrightarrow> inv_flow cfg s \<Longrightarrow> inv_cap cfg s \<Longrightarrow> inv_cap cfg (step cfg s)"
  by (cases rule: step_cases[of s cfg])
     (auto simp: inv_sizes_def inv_flow_def inv_cap_def capped_def split: loc.splits if_splits)

lemma reachable_inv_cap:
  "reachable cfg candidates s \<Longrightarrow> 1 \<le> batch_size cfg \<Longrightarrow> 1 \<le> max_files_per_run cfg
   \<Longrightarrow> inv_cap cfg s"
  by (induction rule: reachable.induct)
     (simp_all add: inv_cap_initial inv_cap_step reachable_inv_flow reachable_inv_sizes)

lemma calls_take:
  assumes "inv_book cfg candidates s"
  shows "calls (trace s) = take (length (calls (trace s))) candidates"
proof -
  from assms have "prefix (calls (trace s)) (pulls (trace s))"
    by (cases "pc s") (auto simp: inv_book_def intro: prefixI[OF sym])
  moreover from assms have "prefix (pulls (trace s)) candidates"
    by (auto simp: inv_book_def prefix_def)
  ultimately have "prefix (calls (trace s)) candidates" by (rule prefix_order.trans)
  then show ?thesis by (auto simp: prefix_def)
qed

lemma new_line:
  assumes book: "inv_book cfg candidates s" and pc: "pc s = Flush []"
    and n: "int (length (calls (trace s))) = batch_size cfg * batch_count s + batch_size cfg"
    and bc: "0 \<le> batch_count s" and bs: "1 \<le> batch_size cfg"
  shows "(batch_count s + 1, success s, errors s)
           = expected_line cfg candidates (Suc (nat (batch_count s)))"
proof -
  have "int (Suc (nat (batch_count s)) * nat (batch_size cfg))
          = (batch_count s + 1) * batch_size cfg"
    using bc bs by (simp add: algebra_simps)
  also have "\<dots> = int (length (calls (trace s)))" using n by (simp add: algebra_simps)
  finally have len: "Suc (nat (batch_count s)) * nat (batch_size cfg) = length (calls (trace s))"
    by linarith
  from book pc have "success s = succeeded cfg (calls (trace s))"
    and "errors s = failed cfg (calls (trace s))"
    by (simp_all add: inv_book_def)
  with calls_take[OF book] len bc show ?thesis
    by (simp add: expected_line_def)
qed

lemma inv_lines_initial: "inv_lines cfg candidates (initial candidates)"
  by (simp add: inv_lines_def initial_def)

lemma inv_lines_step:
  assumes bs: "1 \<le> batch_size cfg" and book: "inv_book cfg candidates s"
    and sizes: "inv_sizes cfg s" and flow: "inv_flow cfg s" and lines: "inv_lines cfg candidates s"
  shows "inv_lines cfg candidates (step cfg s)"
proof (cases rule: step_cases[of s cfg])
  case flush_end_cap
  from lines flush_end_cap(1) have bc: "0 \<le> batch_count s"
    and n: "int (length (calls (trace s))) = batch_size cfg * batch_count s + batch_size cfg"
    and old: "batch_lines (trace s)
                = map (expected_line cfg candidates) [1..<Suc (nat (batch_count s))]"
    by (simp_all add: inv_lines_def)
  from bc have suc: "nat (batch_count s + 1) = Suc (nat (batch_count s))" by simp
  have "batch_lines (trace s) @ [(batch_count s + 1, success s, errors s)]
          = map (expected_line cfg candidates) [1..<Suc (Suc (nat (batch_count s)))]"
    using new_line[OF book flush_end_cap(1) n bc bs] old by simp
  with bc n show ?thesis
    by (simp add: inv_lines_def flush_end_cap suc distrib_left del: upt_Suc)
next
  case flush_end
  from lines flush_end(1) have bc: "0 \<le> batch_count s"
    and n: "int (length (calls (trace s))) = batch_size cfg * batch_count s + batch_size cfg"
    and old: "batch_lines (trace s)
                = map (expected_line cfg candidates) [1..<Suc (nat (batch_count s))]"
    by (simp_all add: inv_lines_def)
  from bc have suc: "nat (batch_count s + 1) = Suc (nat (batch_count s))" by simp
  have "batch_lines (trace s) @ [(batch_count s + 1, success s, errors s)]
          = map (expected_line cfg candidates) [1..<Suc (Suc (nat (batch_count s)))]"
    using new_line[OF book flush_end(1) n bc bs] old by simp
  with bc n show ?thesis
    by (simp add: inv_lines_def flush_end suc distrib_left del: upt_Suc)
qed (use assms in \<open>auto simp: inv_lines_def inv_sizes_def inv_flow_def capped_def
                            split: loc.splits if_splits\<close>)

lemma reachable_inv_lines:
  "reachable cfg candidates s \<Longrightarrow> 1 \<le> batch_size cfg \<Longrightarrow> inv_lines cfg candidates s"
  by (induction rule: reachable.induct)
     (simp_all add: inv_lines_initial inv_lines_step reachable_inv_book reachable_inv_sizes
                   reachable_inv_flow)

subsection \<open>The final state\<close>

lemma reachable_final: "reachable cfg candidates (run cfg (initial candidates))"
  by (rule reachable_run) (rule reachable.at_start)

lemma finished_cases: "finished s \<Longrightarrow> pc s = Returned \<or> escaped s"
  by (cases "pc s") (simp_all add: escaped_def)

lemma counted_calls:
  "list_all (returns cfg) fs \<Longrightarrow> succeeded cfg fs + failed cfg fs = int (length fs)"
proof (induction fs)
  case Nil
  then show ?case by (simp add: succeeded_def failed_def)
next
  case (Cons f fs)
  then obtain ok where "operation cfg f = Inr ok"
    by (auto simp: returns_def split: sum.splits)
  with Cons show ?case by (cases ok) (simp_all add: succeeded_def failed_def)
qed

lemma book_running:
  assumes "inv_book cfg candidates s" and "\<not> escaped s"
  shows "list_all (returns cfg) (calls (trace s))"
    and "success s = succeeded cfg (calls (trace s))"
    and "errors s = failed cfg (calls (trace s))"
    and "prefix (calls (trace s)) (pulls (trace s))"
    and "prefix (pulls (trace s)) candidates"
  using assms
  by (cases "pc s"; auto simp: inv_book_def escaped_def intro: prefixI[OF sym])+


section \<open>Evaluated examples\<close>

lemma example_tree_yields:
  "fst (find_unformatted_files_generator [] example_tree 3 0)
     = [[''a.pdf''], [''2023'', ''b.TXT''], [''open'', ''d.docx'']]"
  by code_simp

lemma plain_tree_yields:
  "fst (find_unformatted_files_generator [] plain_tree 3 0)
     = [[''a.pdf''], [''2023'', ''b.TXT'']]"
  by code_simp

lemma interrupted_tree_scan:
  "find_unformatted_files_generator [] interrupted_tree 3 0
     = ([[''before.pdf'']], Some KeyboardInterrupt)"
  "pc (process_directory_optimized (\<lambda>f. Inr True) interrupted_tree) = Escaped KeyboardInterrupt"
  "calls (trace (process_directory_optimized (\<lambda>f. Inr True) interrupted_tree)) = []"
  by code_simp+

lemma limit_example_run:
  "capped limit_example" "\<not> escaped limit_example" "success limit_example = 3"
  "errors limit_example = 1"
  "calls (trace limit_example) = [[''a.pdf''], [''b.pdf''], [''c.pdf''], [''d.pdf'']]"
  by code_simp+

lemma tail_example_run:
  "\<not> capped tail_example" "pc tail_example = Returned" "success tail_example = 2"
  "errors tail_example = 1" "batch_count tail_example = 1"
  "calls (trace tail_example) = [[''a.pdf''], [''confidential.pdf''], [''b.pdf'']]"
  "batch_lines (trace tail_example) = [(1, 1, 1)]"
  by code_simp+

lemma interrupt_example_run:
  "pc interrupt_example = Escaped KeyboardInterrupt" "escaped interrupt_example"
  "calls (trace interrupt_example) = [[''a.pdf''], [''b.pdf'']]"
  "success interrupt_example = 1" "errors interrupt_example = 0"
  by code_simp+

lemma hundred_example_capped: "capped hundred_example"
  by code_simp


section \<open>The traversal: what is yielded\<close>

text \<open>
  C1, as the code has it. In a tree whose directories raise exceptions of class
  \<open>Exception\<close> only, the paths yielded by a scan from the root are exactly the regular
  files of the part of the tree that the listings deliver (each entry on the path is
  delivered by its directory before that directory raises) which have no hidden
  component below the root, lie at depth at most \<open>max_depth\<close>, have an extension in the
  allow-list whatever its letter case, and do not start with a \<open>YYYY-MM-DD_\<close> prefix. In
  a tree where no directory raises this is every such file of the tree. No path is
  yielded twice, sibling names being distinct as they are in a file system.
\<close>

theorem traversal_yields_reached_candidates:
  "(catchable root \<longrightarrow>
      set (fst (find_unformatted_files_generator [] root max_depth 0))
        = fst ` {e \<in> set (entries_below [] (reached root)). is_candidate max_depth e})
   \<and> (readable root \<longrightarrow>
        set (fst (find_unformatted_files_generator [] root max_depth 0))
          = fst ` {e \<in> set (entries_below [] root). is_candidate max_depth e})
   \<and> (catchable root \<and> sibling_names_distinct root \<longrightarrow>
        distinct (fst (find_unformatted_files_generator [] root max_depth 0)))"
  using traversal_char[of root "[]" 0 max_depth] generator_distinct[of root "[]" max_depth 0]
    reached_readable[of root] readable_catchable[of root]
  by (auto simp: candidates_in_def)

text \<open>
  Two instances: a tree without errors, and \<open>example_tree\<close>, whose directory
  \<open>locked\<close> cannot be listed.
\<close>

theorem traversal_yields_reached_candidates_witness:
  "readable plain_tree
   \<and> sibling_names_distinct plain_tree
   \<and> fst ` {e \<in> set (entries_below [] plain_tree). is_candidate 3 e}
        = {[''a.pdf''], [''2023'', ''b.TXT'']}
   \<and> distinct (fst (find_unformatted_files_generator [] plain_tree 3 0))
   \<and> catchable example_tree
   \<and> sibling_names_distinct example_tree
   \<and> fst ` {e \<in> set (entries_below [] (reached example_tree)). is_candidate 3 e}
        = {[''a.pdf''], [''2023'', ''b.TXT''], [''open'', ''d.docx'']}
   \<and> distinct (fst (find_unformatted_files_generator [] example_tree 3 0))"
proof -
  have r: "readable plain_tree" by code_simp
  have c: "catchable plain_tree" by code_simp
  have d: "sibling_names_distinct plain_tree" by code_simp
  have c': "catchable example_tree" by code_simp
  have d': "sibling_names_distinct example_tree" by code_simp
  note p = traversal_yields_reached_candidates[of plain_tree 3]
  note e = traversal_yields_reached_candidates[of example_tree 3]
  from p r have "fst ` {e \<in> set (entries_below [] plain_tree). is_candidate 3 e}
        = set (fst (find_unformatted_files_generator [] plain_tree 3 0))"
    by blast
  also have "\<dots> = {[''a.pdf''], [''2023'', ''b.TXT'']}"
    by (simp add: plain_tree_yields)
  finally have 1: "fst ` {e \<in> set (entries_below [] plain_tree). is_candidate 3 e}
        = {[''a.pdf''], [''2023'', ''b.TXT'']}" .
  from p c d have 2: "distinct (fst (find_unformatted_files_generator [] plain_tree 3 0))"
    by blast
  from e c' have "fst ` {e \<in> set (entries_below [] (reached example_tree)). is_candidate 3 e}
        = set (fst (find_unformatted_files_generator [] example_tree 3 0))"
    by blast
  also have "\<dots> = {[''a.pdf''], [''2023'', ''b.TXT''], [''open'', ''d.docx'']}"
    by (simp add: example_tree_yields)
  finally have 3: "fst ` {e \<in> set (entries_below [] (reached example_tree)). is_candidate 3 e}
        = {[''a.pdf''], [''2023'', ''b.TXT''], [''open'', ''d.docx'']}" .
  from e c' d' have 4: "distinct (fst (find_unformatted_files_generator [] example_tree 3 0))"
    by blast
  from r d c' d' 1 2 3 4 show ?thesis by blast
qed

text \<open>
  C1 as it is worded speaks of every file of the tree. It fails where a directory cannot
  be listed: \<open>locked/z.pdf\<close> meets all four conditions and is not yielded.
\<close>

theorem unreadable_directory_hides_candidate:
  "\<not> (set (fst (find_unformatted_files_generator []
              (Dir ''archive'' [Dir ''locked'' [File ''z.pdf''] (Some (0, PermissionError))] None) 3 0))
        = fst ` {e \<in> set (entries_below []
              (Dir ''archive'' [Dir ''locked'' [File ''z.pdf''] (Some (0, PermissionError))] None)).
                 is_candidate 3 e})"
proof -
  let ?T = "Dir ''archive'' [Dir ''locked'' [File ''z.pdf''] (Some (0, PermissionError))] None"
  have y: "fst (find_unformatted_files_generator [] ?T 3 0) = []" by code_simp
  have m: "([''locked'', ''z.pdf''], File ''z.pdf'') \<in> set (entries_below [] ?T)" by simp
  have c: "is_candidate 3 ([''locked'', ''z.pdf''], File ''z.pdf'')" by code_simp
  from m c have "[''locked'', ''z.pdf''] \<in> fst ` {e \<in> set (entries_below [] ?T). is_candidate 3 e}"
    by force
  with y show ?thesis by auto
qed


section \<open>The traversal: errors stay where they occur\<close>

text \<open>
  C5. An error raised while a directory is examined is an exception of class
  \<open>Exception\<close>, such as \<open>PermissionError\<close>. In a tree whose directories raise such errors
  only, the generator never leaves an exception to its caller, and its scan is the scan
  of the part of the tree that the listings deliver. A directory that raises after \<open>k\<close>
  entries yields what a directory holding only those \<open>k\<close> entries yields, so nothing more
  comes from it. Every candidate of the tree that lies below no raising directory is
  yielded. (\<open>KeyboardInterrupt\<close> is not of that class: it leaves the generator, as
  \<open>interrupted_tree_scan\<close> shows.)
\<close>

theorem enumeration_errors_are_contained:
  assumes "catchable root"
  shows "snd (find_unformatted_files_generator p root max_depth current_depth) = None
   \<and> fst (find_unformatted_files_generator p (reached root) max_depth current_depth)
       = fst (find_unformatted_files_generator p root max_depth current_depth)
   \<and> fst (find_unformatted_files_generator p (Dir n items (Some (k, e))) max_depth current_depth)
       = fst (find_unformatted_files_generator p (Dir n (take k items) None) max_depth current_depth)
   \<and> (\<forall>(q, x) \<in> set (entries_below [] root).
         is_candidate max_depth (q, x)
         \<and> (\<forall>(p', d) \<in> set (([], root) # entries_below [] root). raises d \<longrightarrow> \<not> strict_prefix p' q)
         \<longrightarrow> q \<in> set (fst (find_unformatted_files_generator [] root max_depth 0)))"
proof (intro conjI)
  show "snd (find_unformatted_files_generator p root max_depth current_depth) = None"
    using assms by (rule generator_never_raises)
  show "fst (find_unformatted_files_generator p (reached root) max_depth current_depth)
       = fst (find_unformatted_files_generator p root max_depth current_depth)"
    using assms by (rule generator_reached)
  show "fst (find_unformatted_files_generator p (Dir n items (Some (k, e))) max_depth current_depth)
       = fst (find_unformatted_files_generator p (Dir n (take k items) None) max_depth current_depth)"
    by (rule generator_cut)
  show "\<forall>(q, x) \<in> set (entries_below [] root).
         is_candidate max_depth (q, x)
         \<and> (\<forall>(p', d) \<in> set (([], root) # entries_below [] root). raises d \<longrightarrow> \<not> strict_prefix p' q)
         \<longrightarrow> q \<in> set (fst (find_unformatted_files_generator [] root max_depth 0))"
  proof (clarify)
    fix q x
    assume in_tree: "(q, x) \<in> set (entries_below [] root)"
      and cand: "is_candidate max_depth (q, x)"
      and ok: "\<forall>(p', d) \<in> set (([], root) # entries_below [] root). raises d \<longrightarrow> \<not> strict_prefix p' q"
    have "(q, reached x) \<in> set (entries_below [] (reached root))"
      by (rule delivered_entry[OF in_tree]) (use ok in auto)
    with cand have "q \<in> candidates_in max_depth (entries_below [] (reached root))"
      by (force simp: candidates_in_def is_candidate_reached)
    then show "q \<in> set (fst (find_unformatted_files_generator [] root max_depth 0))"
      using traversal_char[OF assms, of "[]" 0 max_depth] by simp
  qed
qed

text \<open>
  In \<open>example_tree\<close> the directory \<open>locked\<close> raises \<open>PermissionError\<close>; the file
  \<open>open/d.docx\<close>, listed after it, is still yielded.
\<close>

theorem enumeration_errors_are_contained_witness:
  "catchable example_tree
   \<and> raises (Dir ''locked'' [File ''z.pdf''] (Some (0, PermissionError)))
   \<and> snd (find_unformatted_files_generator [] example_tree 3 0) = None
   \<and> fst (find_unformatted_files_generator [] (Dir ''locked'' [File ''z.pdf''] (Some (0, PermissionError))) 3 0)
        = fst (find_unformatted_files_generator [] (Dir ''locked'' [] None) 3 0)
   \<and> ([''open'', ''d.docx''], File ''d.docx'') \<in> set (entries_below [] example_tree)
   \<and> is_candidate 3 ([''open'', ''d.docx''], File ''d.docx'')
   \<and> [''open'', ''d.docx''] \<in> set (fst (find_unformatted_files_generator [] example_tree 3 0))"
proof -
  have t: "catchable example_tree" by code_simp
  have m: "([''open'', ''d.docx''], File ''d.docx'') \<in> set (entries_below [] example_tree)"
    by (simp add: example_tree_def)
  have c: "is_candidate 3 ([''open'', ''d.docx''], File ''d.docx'')" by code_simp
  have o: "\<forall>(p', d) \<in> set (([], example_tree) # entries_below [] example_tree).
             raises d \<longrightarrow> \<not> strict_prefix p' [''open'', ''d.docx'']"
    by (simp add: example_tree_def)
  from enumeration_errors_are_contained
         [OF t, where p = "[]" and max_depth = 3 and current_depth = 0
            and n = "''locked''" and items = "[File ''z.pdf'']" and k = 0
            and e = PermissionError]
    t m c o
  show ?thesis by auto
qed


section \<open>The batch runner\<close>

text \<open>
  The statements of this section are about the states that a run reaches over the
  candidates of a generator that ends by exhaustion.

  C2, as the code has it. At every state of a run that no exception has left, and so at
  the end of a run that returns, the sum of \<open>success\<close> and \<open>errors\<close> is the number of files
  passed to the operation: \<open>success\<close> counts those it returned \<open>True\<close> on, \<open>errors\<close> those
  it returned \<open>False\<close> on. When the operation raises, the run is left by the exception
  and the file it raised on is counted by neither: the sum is one less than the number
  of files passed. The sum never exceeds the number of files taken from the generator.
\<close>

theorem counters_equal_calls:
  assumes "reachable cfg candidates s \<or> s = run cfg (initial candidates)"
  shows "(\<not> escaped s \<longrightarrow>
            success s + errors s = int (length (calls (trace s)))
            \<and> success s = succeeded cfg (calls (trace s))
            \<and> errors s = failed cfg (calls (trace s)))
       \<and> (escaped s \<longrightarrow> success s + errors s = int (length (calls (trace s))) - 1)
       \<and> success s + errors s \<le> int (length (pulls (trace s)))"
proof -
  from assms have "reachable cfg candidates s" using reachable_final by auto
  then have book: "inv_book cfg candidates s" by (rule reachable_inv_book)
  show ?thesis
  proof (cases "escaped s")
    case False
    note b = book_running[OF book False]
    from b(4) have "length (calls (trace s)) \<le> length (pulls (trace s))"
      by (rule prefix_length_le)
    with counted_calls[OF b(1)] b(2,3) False show ?thesis by simp
  next
    case True
    then obtain e where e: "pc s = Escaped e" by (cases "pc s") (simp_all add: escaped_def)
    with book have ne: "calls (trace s) \<noteq> []"
      and ret: "list_all (returns cfg) (butlast (calls (trace s)))"
      and su: "success s = succeeded cfg (butlast (calls (trace s)))"
      and er: "errors s = failed cfg (butlast (calls (trace s)))"
      and pre: "prefix (calls (trace s)) (pulls (trace s))"
      by (simp_all add: inv_book_def)
    from ne have "int (length (butlast (calls (trace s)))) = int (length (calls (trace s))) - 1"
      by (cases "calls (trace s)") simp_all
    moreover from pre have "length (calls (trace s)) \<le> length (pulls (trace s))"
      by (rule prefix_length_le)
    ultimately show ?thesis using counted_calls[OF ret] su er True by simp
  qed
qed

text \<open>
  Two instances: a run that returns, and a run that the operation leaves by
  \<open>KeyboardInterrupt\<close> on its second file.
\<close>

theorem counters_equal_calls_witness:
  "limit_example = run limit_config (initial [[''a.pdf''], [''b.pdf''], [''c.pdf''], [''d.pdf'']])
   \<and> \<not> escaped limit_example
   \<and> success limit_example = 3 \<and> errors limit_example = 1
   \<and> success limit_example + errors limit_example = int (length (calls (trace limit_example)))
   \<and> success limit_example + errors limit_example \<le> int (length (pulls (trace limit_example)))
   \<and> interrupt_example = run interrupt_config (initial [[''a.pdf''], [''b.pdf''], [''c.pdf'']])
   \<and> escaped interrupt_example
   \<and> success interrupt_example + errors interrupt_example
        = int (length (calls (trace interrupt_example))) - 1"
proof -
  have r: "reachable limit_config [[''a.pdf''], [''b.pdf''], [''c.pdf''], [''d.pdf'']] limit_example
      \<or> limit_example = run limit_config (initial [[''a.pdf''], [''b.pdf''], [''c.pdf''], [''d.pdf'']])"
    by (simp add: limit_example_def)
  have r': "reachable interrupt_config [[''a.pdf''], [''b.pdf''], [''c.pdf'']] interrupt_example
      \<or> interrupt_example = run interrupt_config (initial [[''a.pdf''], [''b.pdf''], [''c.pdf'']])"
    by (simp add: interrupt_example_def)
  from counters_equal_calls[OF r] counters_equal_calls[OF r'] limit_example_run
    interrupt_example_run(2) limit_example_def interrupt_example_def
  show ?thesis by blast
qed

text \<open>
  C2 as it is worded holds at every point of every run. The run of \<open>interrupt_example\<close>
  passes two files to \<open>process_file\<close>, which lets the \<open>KeyboardInterrupt\<close> of the second
  one through; the counters then stand at one success and no error.
\<close>

theorem counters_miss_the_raising_call:
  "interrupt_example = run interrupt_config (initial [[''a.pdf''], [''b.pdf''], [''c.pdf'']])
   \<and> calls (trace interrupt_example) = [[''a.pdf''], [''b.pdf'']]
   \<and> success interrupt_example = 1 \<and> errors interrupt_example = 0
   \<and> \<not> (success interrupt_example + errors interrupt_example
          = int (length (calls (trace interrupt_example))))"
  using interrupt_example_def by (simp add: interrupt_example_run)

text \<open>
  C3, as the code has it. The limit is tested after a full batch only, with \<open>>=\<close>. A run
  that stops at the safety limit therefore ends with at least \<open>max_files_per_run\<close>
  successes and at most \<open>max_files_per_run + batch_size - 1\<close>.
\<close>

theorem capped_success_between_cap_and_cap_plus_batch:
  assumes "1 \<le> batch_size cfg" and "1 \<le> max_files_per_run cfg"
    and "s = run cfg (initial candidates)" and "capped s"
  shows "max_files_per_run cfg \<le> success s
       \<and> success s \<le> max_files_per_run cfg + batch_size cfg - 1"
proof -
  have r: "reachable cfg candidates s" using assms(3) reachable_final by simp
  from reachable_inv_flow[OF r] assms(4)
  have lo: "max_files_per_run cfg \<le> success s" and pc: "pc s = AfterLoop \<or> pc s = Returned"
    by (simp_all add: inv_flow_def)
  from reachable_inv_cap[OF r assms(1,2)] pc assms(4)
  have "success s < max_files_per_run cfg + batch_size cfg"
    by (auto simp: inv_cap_def)
  with lo show ?thesis by simp
qed

theorem capped_success_between_cap_and_cap_plus_batch_witness:
  "1 \<le> batch_size limit_config \<and> 1 \<le> max_files_per_run limit_config
   \<and> capped limit_example
   \<and> max_files_per_run limit_config \<le> success limit_example
   \<and> success limit_example \<le> max_files_per_run limit_config + batch_size limit_config - 1"
proof -
  have b: "1 \<le> batch_size limit_config" and m: "1 \<le> max_files_per_run limit_config"
    by (simp_all add: limit_config_def)
  from capped_success_between_cap_and_cap_plus_batch[OF b m limit_example_def limit_example_run(1)]
    b m limit_example_run(1)
  show ?thesis by blast
qed

text \<open>
  C3 as it is worded puts the count between \<open>cap - batch_size + 1\<close> and \<open>cap\<close>. With
  batches of two and a limit of two, four files of which the first fails end the run at
  three successes: one after the first batch, three after the second.
\<close>

theorem capped_success_exceeds_cap:
  "capped limit_example \<and> success limit_example = 3
   \<and> \<not> (capped limit_example \<longrightarrow>
          max_files_per_run limit_config - batch_size limit_config + 1 \<le> success limit_example
          \<and> success limit_example \<le> max_files_per_run limit_config)"
  by (simp add: limit_example_run limit_config_def)

text \<open>
  C4. With a limit of 100 and batches of 25, a run that stops at the limit ends with 100
  to 124 successes. It never stops inside a batch: it has returned, every file taken
  from the generator was passed to the operation, and their number is 25 times the
  number of batches.
\<close>

theorem cap_100_batch_25_success_range:
  assumes "batch_size cfg = 25" and "max_files_per_run cfg = 100"
    and "s = run cfg (initial candidates)" and "capped s"
  shows "success s \<in> {100..124}
       \<and> pc s = Returned
       \<and> calls (trace s) = pulls (trace s)
       \<and> int (length (calls (trace s))) = 25 * batch_count s"
proof -
  have r: "reachable cfg candidates s" using assms(3) reachable_final by simp
  have fin: "finished s" using assms(3) finished_run by simp
  from reachable_inv_flow[OF r] assms(4)
  have lo: "max_files_per_run cfg \<le> success s" and "pc s = AfterLoop \<or> pc s = Returned"
    by (simp_all add: inv_flow_def)
  with fin have pc: "pc s = Returned" by auto
  from reachable_inv_cap[OF r] pc assms
  have hi: "success s < max_files_per_run cfg + batch_size cfg"
    by (auto simp: inv_cap_def)
  from reachable_inv_book[OF r] pc have "calls (trace s) = pulls (trace s)"
    by (simp add: inv_book_def)
  moreover from reachable_inv_lines[OF r] pc assms
  have "int (length (calls (trace s))) = 25 * batch_count s"
    by (simp add: inv_lines_def)
  ultimately show ?thesis using lo hi pc assms(1,2) by simp
qed

theorem cap_100_batch_25_success_range_witness:
  "batch_size hundred_config = 25 \<and> max_files_per_run hundred_config = 100
   \<and> hundred_example = run hundred_config (initial hundred_files)
   \<and> capped hundred_example
   \<and> success hundred_example \<in> {100..124}
   \<and> pc hundred_example = Returned
   \<and> calls (trace hundred_example) = pulls (trace hundred_example)
   \<and> int (length (calls (trace hundred_example))) = 25 * batch_count hundred_example"
proof -
  have b: "batch_size hundred_config = 25" and m: "max_files_per_run hundred_config = 100"
    by (simp_all add: hundred_config_def)
  from cap_100_batch_25_success_range[OF b m hundred_example_def hundred_example_capped]
    b m hundred_example_def hundred_example_capped
  show ?thesis by blast
qed

text \<open>
  C6. When the operation returns a truth value on every candidate, the run returns;
  every file taken from the generator was passed to the operation; \<open>errors\<close> is the
  number of files it returned \<open>False\<close> on and \<open>success\<close> the number it returned \<open>True\<close>
  on. Unless the safety limit stopped the run, every candidate was processed, and the
  limit stops a run only once the successes have reached it: a \<open>False\<close> never ends a run.
\<close>

theorem false_results_are_counted_and_run_continues:
  assumes "list_all (returns cfg) candidates" and "s = run cfg (initial candidates)"
  shows "pc s = Returned
       \<and> calls (trace s) = pulls (trace s)
       \<and> errors s = failed cfg (calls (trace s))
       \<and> success s = succeeded cfg (calls (trace s))
       \<and> (capped s \<or> calls (trace s) = candidates)
       \<and> (capped s \<longrightarrow> max_files_per_run cfg \<le> success s)"
proof -
  have r: "reachable cfg candidates s" using assms(2) reachable_final by simp
  have fin: "finished s" using assms(2) finished_run by simp
  note book = reachable_inv_book[OF r]
  have "\<not> escaped s"
  proof
    assume "escaped s"
    then obtain e where e: "pc s = Escaped e" by (cases "pc s") (simp_all add: escaped_def)
    with book have ne: "calls (trace s) \<noteq> []"
      and raise: "operation cfg (last (calls (trace s))) = Inl e"
      and pre: "prefix (calls (trace s)) (pulls (trace s))"
      and all: "pulls (trace s) @ gen s = candidates"
      by (simp_all add: inv_book_def)
    from ne have "last (calls (trace s)) \<in> set (calls (trace s))" by simp
    with pre have "last (calls (trace s)) \<in> set (pulls (trace s))"
      by (auto dest: set_mono_prefix)
    with all have "last (calls (trace s)) \<in> set candidates" by auto
    with assms(1) have "returns cfg (last (calls (trace s)))" by (simp add: list_all_iff)
    with raise show False by (simp add: returns_def)
  qed
  with fin have pc: "pc s = Returned" using finished_cases by blast
  from book pc have b: "calls (trace s) = pulls (trace s)"
    "errors s = failed cfg (calls (trace s))" "success s = succeeded cfg (calls (trace s))"
    "pulls (trace s) @ gen s = candidates"
    by (simp_all add: inv_book_def)
  from reachable_inv_flow[OF r] pc
  have "capped s \<or> gen s = []" and "capped s \<longrightarrow> max_files_per_run cfg \<le> success s"
    by (auto simp: inv_flow_def split: if_splits)
  with b pc show ?thesis by auto
qed

theorem false_results_are_counted_and_run_continues_witness:
  "list_all (returns tail_config) [[''a.pdf''], [''confidential.pdf''], [''b.pdf'']]
   \<and> operation tail_config [''confidential.pdf''] = Inr False
   \<and> pc tail_example = Returned
   \<and> errors tail_example = failed tail_config (calls (trace tail_example))
   \<and> success tail_example = succeeded tail_config (calls (trace tail_example))
   \<and> calls (trace tail_example) = [[''a.pdf''], [''confidential.pdf''], [''b.pdf'']]
   \<and> errors tail_example = 1 \<and> success tail_example = 2"
proof -
  have h: "list_all (returns tail_config) [[''a.pdf''], [''confidential.pdf''], [''b.pdf'']]"
    by (simp add: returns_def tail_config_def)
  have o: "operation tail_config [''confidential.pdf''] = Inr False"
    by (simp add: tail_config_def)
  from false_results_are_counted_and_run_continues[OF h tail_example_def] h o tail_example_run
  show ?thesis by blast
qed

text \<open>
  C7. With a batch size of at least one, the batch never holds more than \<open>batch_size\<close>
  files. While a batch of the main loop is processed it holds exactly \<open>batch_size\<close>
  files; only the remaining files, processed after the generator is exhausted, are
  fewer.
\<close>

theorem batch_bounded_by_batch_size:
  assumes "1 \<le> batch_size cfg"
    and "reachable cfg candidates s \<or> s = run cfg (initial candidates)"
  shows "int (length (batch s)) \<le> batch_size cfg
       \<and> (\<forall>fs. pc s = Flush fs \<longrightarrow> int (length (batch s)) = batch_size cfg)
       \<and> (\<forall>fs. pc s = Tail fs \<longrightarrow>
            batch s \<noteq> [] \<and> int (length (batch s)) < batch_size cfg \<and> gen s = [])"
proof -
  from assms(2) have "reachable cfg candidates s" using reachable_final by auto
  from reachable_inv_sizes[OF this assms(1)] assms(1) show ?thesis
    by (cases "pc s") (auto simp: inv_sizes_def)
qed

theorem batch_bounded_by_batch_size_witness:
  "1 \<le> batch_size tail_config
   \<and> reachable tail_config [[''a.pdf''], [''confidential.pdf''], [''b.pdf'']]
        (step tail_config (step tail_config
           (initial [[''a.pdf''], [''confidential.pdf''], [''b.pdf'']])))
   \<and> pc (step tail_config (step tail_config
           (initial [[''a.pdf''], [''confidential.pdf''], [''b.pdf'']])))
        = Flush [[''a.pdf''], [''confidential.pdf'']]
   \<and> int (length (batch (step tail_config (step tail_config
           (initial [[''a.pdf''], [''confidential.pdf''], [''b.pdf'']])))))
        = batch_size tail_config"
proof -
  let ?cs = "[[''a.pdf''], [''confidential.pdf''], [''b.pdf'']]"
  let ?s = "step tail_config (step tail_config (initial ?cs))"
  have b: "1 \<le> batch_size tail_config" by (simp add: tail_config_def)
  have r: "reachable tail_config ?cs ?s"
    by (intro reachable.after_step reachable.at_start)
  have p: "pc ?s = Flush [[''a.pdf''], [''confidential.pdf'']]" by code_simp
  from batch_bounded_by_batch_size[OF b disjI1[OF r]] b r p show ?thesis by blast
qed

text \<open>
  C8, as the code has it. A line is printed after each full batch of the main loop, and
  only then: line \<open>i\<close> carries \<open>i\<close> and the successes and errors among the first \<open>i\<close>
  batches. When the run has returned, the number of lines is the number of processed
  files divided by the batch size, rounded down: the remaining files get no line and are
  not counted as a batch.
\<close>

theorem batch_lines_report_full_batches:
  assumes "1 \<le> batch_size cfg"
    and "reachable cfg candidates s \<or> s = run cfg (initial candidates)"
  shows "batch_lines (trace s)
           = map (expected_line cfg candidates) [1..<Suc (nat (batch_count s))]
       \<and> (pc s = Returned \<longrightarrow>
            nat (batch_count s) = length (calls (trace s)) div nat (batch_size cfg))"
proof -
  from assms(2) have r: "reachable cfg candidates s" using reachable_final by auto
  note l = reachable_inv_lines[OF r assms(1)]
  have "nat (batch_count s) = length (calls (trace s)) div nat (batch_size cfg)"
    if pc: "pc s = Returned"
  proof -
    let ?b = "nat (batch_size cfg)" and ?k = "nat (batch_count s)" and ?n = "length (calls (trace s))"
    from l pc have bc: "0 \<le> batch_count s"
      and lo: "batch_size cfg * batch_count s \<le> int ?n"
      and hi: "int ?n < batch_size cfg * batch_count s + batch_size cfg"
      by (simp_all add: inv_lines_def)
    have eq: "int (?b * ?k) = batch_size cfg * batch_count s"
      using bc assms(1) by simp
    from lo eq have lo': "?b * ?k \<le> ?n" by linarith
    have eq2: "int (?b * ?k + ?b) = batch_size cfg * batch_count s + batch_size cfg"
      using bc assms(1) by simp
    from hi have "int ?n < int (?b * ?k + ?b)" by (simp only: eq2)
    then have hi': "?n < ?b * ?k + ?b" by linarith
    from assms(1) have "0 < ?b" by simp
    with lo' hi' have "?n div ?b = ?k"
      by (metis div_nat_eqI mult_Suc_right add.commute)
    then show ?thesis by simp
  qed
  with l show ?thesis by (simp add: inv_lines_def)
qed

theorem batch_lines_report_full_batches_witness:
  "1 \<le> batch_size tail_config
   \<and> tail_example = run tail_config (initial [[''a.pdf''], [''confidential.pdf''], [''b.pdf'']])
   \<and> pc tail_example = Returned
   \<and> batch_lines (trace tail_example)
        = map (expected_line tail_config [[''a.pdf''], [''confidential.pdf''], [''b.pdf'']])
            [1..<Suc (nat (batch_count tail_example))]
   \<and> nat (batch_count tail_example)
        = length (calls (trace tail_example)) div nat (batch_size tail_config)
   \<and> batch_lines (trace tail_example) = [(1, 1, 1)]
   \<and> length (calls (trace tail_example)) = 3"
proof -
  have b: "1 \<le> batch_size tail_config" by (simp add: tail_config_def)
  have n: "length (calls (trace tail_example)) = 3" by (simp add: tail_example_run)
  from batch_lines_report_full_batches[OF b disjI2[OF tail_example_def]] b tail_example_def
    tail_example_run n
  show ?thesis by blast
qed

text \<open>
  C8 as it is worded includes the remaining files. Three files in batches of two: the
  only line is that of the first batch, and no line carries the totals reached after
  the third file.
\<close>

theorem tail_flush_prints_no_batch_line:
  "calls (trace tail_example) = [[''a.pdf''], [''confidential.pdf''], [''b.pdf'']]
   \<and> success tail_example = 2 \<and> errors tail_example = 1
   \<and> batch_lines (trace tail_example) = [(1, 1, 1)]
   \<and> \<not> (\<exists>n. (n, success tail_example, errors tail_example)
              \<in> set (batch_lines (trace tail_example)))"
  by (simp add: tail_example_run)

text \<open>
  C9. When the archive path does not exist, \<open>main\<close> prints the banner and the error and
  returns: no file is taken from a generator and the operation is never called.
\<close>

theorem missing_root_does_not_start_run:
  "main op None = ([Banner, PathDoesNotExist], None)"
  by (simp add: main_def)

theorem missing_root_does_not_start_run_witness:
  "main (process_file (\<lambda>f. None)) None = ([Banner, PathDoesNotExist], None)"
  by (rule missing_root_does_not_start_run)

text \<open>
  C10. If the operation raises on a file passed to it, the run ends by that exception.
  Then no statistics are returned, the raising call is the last call, and the counters
  count the calls before it only.
\<close>

theorem raising_operation_escapes:
  assumes "s = run cfg (initial candidates)"
  shows "((\<exists>f \<in> set (calls (trace s)). \<not> returns cfg f) \<longrightarrow> escaped s)
       \<and> (\<forall>e. pc s = Escaped e \<longrightarrow>
             returned_stats s = Inl e
             \<and> calls (trace s) \<noteq> []
             \<and> operation cfg (last (calls (trace s))) = Inl e
             \<and> list_all (returns cfg) (butlast (calls (trace s)))
             \<and> success s = succeeded cfg (butlast (calls (trace s)))
             \<and> errors s = failed cfg (butlast (calls (trace s)))
             \<and> prefix (calls (trace s)) candidates)"
proof -
  have r: "reachable cfg candidates s" using assms reachable_final by simp
  note book = reachable_inv_book[OF r]
  have a: "escaped s" if "\<exists>f \<in> set (calls (trace s)). \<not> returns cfg f"
  proof (rule ccontr)
    assume "\<not> escaped s"
    from book_running(1)[OF book this] that show False by (auto simp: list_all_iff)
  qed
  have b: "returned_stats s = Inl e
             \<and> calls (trace s) \<noteq> []
             \<and> operation cfg (last (calls (trace s))) = Inl e
             \<and> list_all (returns cfg) (butlast (calls (trace s)))
             \<and> success s = succeeded cfg (butlast (calls (trace s)))
             \<and> errors s = failed cfg (butlast (calls (trace s)))
             \<and> prefix (calls (trace s)) candidates" if e: "pc s = Escaped e" for e
  proof -
    from book e have "prefix (calls (trace s)) (pulls (trace s))"
      and "prefix (pulls (trace s)) candidates"
      by (auto simp: inv_book_def)
    then have "prefix (calls (trace s)) candidates" by (rule prefix_order.trans)
    with book e show ?thesis by (simp add: inv_book_def returned_stats_def)
  qed
  from a b show ?thesis by blast
qed

theorem raising_operation_escapes_witness:
  "interrupt_example = run interrupt_config (initial [[''a.pdf''], [''b.pdf''], [''c.pdf'']])
   \<and> pc interrupt_example = Escaped KeyboardInterrupt
   \<and> returned_stats interrupt_example = Inl KeyboardInterrupt
   \<and> operation interrupt_config (last (calls (trace interrupt_example))) = Inl KeyboardInterrupt
   \<and> success interrupt_example = succeeded interrupt_config (butlast (calls (trace interrupt_example)))
   \<and> errors interrupt_example = failed interrupt_config (butlast (calls (trace interrupt_example)))
   \<and> calls (trace interrupt_example) = [[''a.pdf''], [''b.pdf'']]
   \<and> success interrupt_example = 1 \<and> errors interrupt_example = 0"
proof -
  from raising_operation_escapes[OF interrupt_example_def] interrupt_example_run
    interrupt_example_def
  show ?thesis by blast
qed


end
